theory Spec2Isabelle
  imports Main "HOL-Library.AList"
begin

unbundle bit_operations_syntax

chapter \<open>A shallow embedding of the OciorABA* demo (src/main.py)\<close>

text \<open>
  The Python program is embedded function by function.  Python's unbounded
  integers are \<^typ>\<open>int\<close>; a \<^verbatim>\<open>dict\<close> is an association list in insertion
  order (Python dictionaries iterate in insertion order, and assigning to an
  existing key keeps its position, which is what \<^const>\<open>AList.update\<close> does);
  every exception the code can raise is a value of \<open>error\<close>, returned on the
  left of a sum; an exception ends the call, and where the call changes
  objects the exception comes with the state the objects are left in.  The
  \<^verbatim>\<open>print\<close> calls only write a log and are left out.
  Names are the source's, without the leading underscore (\<^verbatim>\<open>_PRIME\<close> is
  \<open>PRIME\<close>, \<^verbatim>\<open>_finalize\<close> is \<open>finalize\<close>); the attributes \<open>n\<close> and \<open>t\<close> that
  several classes share carry the class in their name (\<open>abba_n\<close>, \<open>node_t\<close>),
  \<^verbatim>\<open>ABBA._output\<close> is \<open>abba_output\<close> and \<^verbatim>\<open>_shares\<close> is \<open>own_shares\<close>.
\<close>

section \<open>Python helpers\<close>

datatype error = ValueError | IndexError | AssertionError | KeyError

text \<open>The slice \<^verbatim>\<open>xs[:k]\<close>: a negative \<open>k\<close> counts from the end of the list.\<close>

definition py_slice_to :: "'a list \<Rightarrow> int \<Rightarrow> 'a list" where
  "py_slice_to xs k = (if k < 0 then take (length xs - nat (- k)) xs else take (nat k) xs)"

text \<open>Indexing \<^verbatim>\<open>xs[i]\<close>: a negative index counts from the end, anything out of
  range raises \<^verbatim>\<open>IndexError\<close>.\<close>

definition py_index :: "'a list \<Rightarrow> int \<Rightarrow> error + 'a" where
  "py_index xs i =
     (if 0 \<le> i \<and> i < int (length xs) then Inr (xs ! nat i)
      else if i < 0 \<and> - i \<le> int (length xs) then Inr (xs ! (length xs - nat (- i)))
      else Inl IndexError)"

text \<open>Looking a key up, \<^verbatim>\<open>d[k]\<close>: a missing key raises \<^verbatim>\<open>KeyError\<close>.\<close>

definition py_lookup :: "('k \<times> 'v) list \<Rightarrow> 'k \<Rightarrow> error + 'v" where
  "py_lookup d k = (case map_of d k of None \<Rightarrow> Inl KeyError | Some v \<Rightarrow> Inr v)"

text \<open>The built-in \<^verbatim>\<open>pow(b, e, m)\<close> for an exponent \<open>e \<ge> 0\<close> and a modulus
  \<open>m > 0\<close>, the only way the program calls it (the modulus is always
  \<^verbatim>\<open>_PRIME\<close>, the exponent a list position or \<^verbatim>\<open>_PRIME - 2\<close>).\<close>

definition py_pow :: "int \<Rightarrow> int \<Rightarrow> int \<Rightarrow> int" where
  "py_pow b e m = b ^ nat e mod m"

text \<open>Square-and-multiply along the binary digits of the exponent: how
  \<open>py_pow\<close> is evaluated on literals (see \<open>py_pow_code\<close> below).\<close>

definition sqr_mul_mod :: "int \<Rightarrow> int \<Rightarrow> int \<Rightarrow> int" where
  "sqr_mul_mod h c m = (h * h mod m) * c mod m"

primrec pow_num :: "int \<Rightarrow> num \<Rightarrow> int \<Rightarrow> int" where
  "pow_num b num.One m = b mod m"
| "pow_num b (num.Bit0 n) m = sqr_mul_mod (pow_num b n m) 1 m"
| "pow_num b (num.Bit1 n) m = sqr_mul_mod (pow_num b n m) b m"

section \<open>Shamir secret sharing (the erasure code)\<close>

definition PRIME :: int where
  "PRIME = 2 ^ 127 - 1"

text \<open>\<^verbatim>\<open>_eval_polynomial\<close>: the loop over \<^verbatim>\<open>enumerate(coeffs)\<close> is a fold with
  the running \<^verbatim>\<open>result\<close> as its state.\<close>

definition eval_polynomial :: "int list \<Rightarrow> int \<Rightarrow> int \<Rightarrow> int" where
  "eval_polynomial coeffs x prime =
     fold (\<lambda>(power, coef) result. (result + coef * py_pow x (int power) prime) mod prime)
       (enumerate 0 coeffs) 0"

text \<open>\<^verbatim>\<open>ECEnc\<close>.  The coefficients after the secret come from Python's
  \<^verbatim>\<open>random\<close> module, which is not part of the repository: \<open>rnd secret i\<close> stands
  for the \<open>i\<close>-th value \<^verbatim>\<open>random.randrange(_PRIME)\<close> returns after
  \<^verbatim>\<open>random.seed(secret)\<close>.  Nothing below assumes anything about \<open>rnd\<close>.\<close>

definition ECEnc :: "(int \<Rightarrow> nat \<Rightarrow> int) \<Rightarrow> int \<Rightarrow> int \<Rightarrow> int \<Rightarrow> error + (int \<times> int) list" where
  "ECEnc rnd n k secret =
     (if \<not> (0 \<le> secret \<and> secret < PRIME) then Inl ValueError
      else let coeffs = secret # map (rnd secret) [0..<nat (k - 1)];
               shares = map (\<lambda>i. (i, eval_polynomial coeffs i PRIME)) [1..n]
           in Inr shares)"

text \<open>The inner loop of \<^verbatim>\<open>_lagrange_interpolate\<close> for one \<open>i\<close>: it runs over the
  positions \<open>j\<close> and skips \<open>j = i\<close> (positions are compared, not values).\<close>

definition num_den :: "int \<Rightarrow> int list \<Rightarrow> nat \<Rightarrow> int \<Rightarrow> int \<times> int" where
  "num_den x x_s i prime =
     fold (\<lambda>j (num, den).
             if i \<noteq> j
             then ((num * (x - x_s ! j)) mod prime, (den * (x_s ! i - x_s ! j)) mod prime)
             else (num, den))
       [0..<length x_s] (1, 1)"

text \<open>\<^verbatim>\<open>_lagrange_interpolate\<close>.  \<^verbatim>\<open>y_s[i]\<close> raises \<^verbatim>\<open>IndexError\<close> when \<open>y_s\<close> is
  shorter than \<open>x_s\<close>; nothing has been changed by then, so the exception is
  the whole result.\<close>

definition lagrange_interpolate :: "int \<Rightarrow> int list \<Rightarrow> int list \<Rightarrow> int \<Rightarrow> error + int" where
  "lagrange_interpolate x x_s y_s prime =
     (if length y_s < length x_s then Inl IndexError
      else Inr (fold (\<lambda>i total.
                  let (num, den) = num_den x x_s i prime;
                      inv_den = py_pow den (prime - 2) prime
                  in (total + y_s ! i * num * inv_den) mod prime)
                [0..<length x_s] 0))"

text \<open>\<^verbatim>\<open>ECDec\<close>.  Unpacking the transposed slice \<^verbatim>\<open>shares[:k]\<close> into \<^verbatim>\<open>x_s, y_s\<close> raises \<^verbatim>\<open>ValueError\<close> when the
  slice is empty (nothing to unpack).  The parameter \<open>n\<close> is not used.\<close>

definition ECDec :: "int \<Rightarrow> int \<Rightarrow> (int \<times> int) list \<Rightarrow> error + int" where
  "ECDec n k shares =
     (let sel = py_slice_to shares k
      in if sel = [] then Inl ValueError
         else lagrange_interpolate 0 (map fst sel) (map snd sel) PRIME)"

section \<open>The common coin\<close>

record CommonCoin =
  coin_n :: int
  coin_t :: int
  coin_shares :: "(int \<times> int) list"
  coin_value :: "int option"

definition CommonCoin_init :: "int \<Rightarrow> int \<Rightarrow> CommonCoin" where
  "CommonCoin_init n t = \<lparr>coin_n = n, coin_t = t, coin_shares = [], coin_value = None\<rparr>"

text \<open>\<^verbatim>\<open>_try_compute_coin\<close>: the exclusive or of the first \<open>t + 1\<close> shares, once
  there are that many and no value has been fixed.\<close>

definition try_compute_coin :: "CommonCoin \<Rightarrow> CommonCoin" where
  "try_compute_coin c =
     (if int (length (coin_shares c)) \<ge> coin_t c + 1 \<and> coin_value c = None
      then c\<lparr>coin_value :=
             Some (fold (\<lambda>share cv. cv XOR share)
                     (py_slice_to (map snd (coin_shares c)) (coin_t c + 1)) 0)\<rparr>
      else c)"

definition contribute_share :: "CommonCoin \<Rightarrow> int \<Rightarrow> int \<Rightarrow> CommonCoin" where
  "contribute_share c node_id round_num =
     (let share = (node_id * 7 + round_num * 13) mod 2
      in try_compute_coin (c\<lparr>coin_shares := AList.update node_id share (coin_shares c)\<rparr>))"

definition get_coin_value :: "CommonCoin \<Rightarrow> int option" where
  "get_coin_value c = coin_value c"

definition has_coin_value :: "CommonCoin \<Rightarrow> bool" where
  "has_coin_value c = (coin_value c \<noteq> None)"

section \<open>The binary agreement instance\<close>

record ABBA =
  owner :: int
  abba_n :: int
  abba_t :: int
  inputs :: "(int \<times> int) list"
  abba_output :: "int option"
  common_coin :: CommonCoin
  coin_requested :: bool

definition ABBA_init :: "int \<Rightarrow> int \<Rightarrow> int \<Rightarrow> ABBA" where
  "ABBA_init ow n t =
     \<lparr>owner = ow, abba_n = n, abba_t = t, inputs = [], abba_output = None,
      common_coin = CommonCoin_init n t, coin_requested = False\<rparr>"

text \<open>The three counts \<^verbatim>\<open>_try_decide\<close> takes of the recorded votes.\<close>

definition ones :: "ABBA \<Rightarrow> int" where
  "ones a = int (length (filter (\<lambda>v. v = 1) (map snd (inputs a))))"

definition zeros :: "ABBA \<Rightarrow> int" where
  "zeros a = int (length (filter (\<lambda>v. v = 0) (map snd (inputs a))))"

definition total_votes :: "ABBA \<Rightarrow> int" where
  "total_votes a = int (length (inputs a))"

definition try_decide :: "ABBA \<Rightarrow> ABBA" where
  "try_decide a =
     (if abba_output a \<noteq> None then a
      else if ones a \<ge> abba_n a - abba_t a then a\<lparr>abba_output := Some 1\<rparr>
      else if zeros a \<ge> abba_n a - abba_t a then a\<lparr>abba_output := Some 0\<rparr>
      else if total_votes a \<ge> abba_n a - abba_t a then
        (if has_coin_value (common_coin a) then
           (let coin_val = get_coin_value (common_coin a)
            in if ones a \<ge> abba_t a + 1 then a\<lparr>abba_output := Some 1\<rparr>
               else if zeros a \<ge> abba_t a + 1 then a\<lparr>abba_output := Some 0\<rparr>
               else a\<lparr>abba_output := coin_val\<rparr>)
         else a)
      else a)"

text \<open>\<^verbatim>\<open>ABBA.input\<close>: a sender already in \<^verbatim>\<open>inputs\<close> is ignored; a new one is
  appended, the first accepted input contributes the only coin share, and the
  decision rule runs.\<close>

definition ABBA_input :: "ABBA \<Rightarrow> int \<Rightarrow> int \<Rightarrow> ABBA" where
  "ABBA_input a sender v =
     (if sender \<in> fst ` set (inputs a) then a
      else let a1 = a\<lparr>inputs := AList.update sender v (inputs a)\<rparr>;
               a2 = (if \<not> coin_requested a1
                     then a1\<lparr>common_coin := contribute_share (common_coin a1) sender 1,
                             coin_requested := True\<rparr>
                     else a1)
           in try_decide a2)"

definition has_output :: "ABBA \<Rightarrow> bool" where
  "has_output a = (abba_output a \<noteq> None)"

definition get_output :: "ABBA \<Rightarrow> int option" where
  "get_output a = abba_output a"

text \<open>A run of one instance: the calls \<^verbatim>\<open>input(sender, v)\<close> it receives, in order.\<close>

primrec ABBA_run :: "ABBA \<Rightarrow> (int \<times> int) list \<Rightarrow> ABBA" where
  "ABBA_run a [] = a"
| "ABBA_run a (c # cs) = ABBA_run (ABBA_input a (fst c) (snd c)) cs"

text \<open>The decision rule in the words of the specification, as a function of the
  three counts and of the coin: the first condition that holds decides.\<close>

definition decision_rule :: "int \<Rightarrow> int \<Rightarrow> int \<Rightarrow> int \<Rightarrow> int \<Rightarrow> int option \<Rightarrow> int option" where
  "decision_rule n t cnt1 cnt0 votes coin =
     (if cnt1 \<ge> n - t then Some 1
      else if cnt0 \<ge> n - t then Some 0
      else if votes \<ge> n - t \<and> coin \<noteq> None then
        (if cnt1 \<ge> t + 1 then Some 1
         else if cnt0 \<ge> t + 1 then Some 0
         else coin)
      else None)"

section \<open>The node and the registry\<close>

text \<open>An exception leaves the objects as they were when it was raised: a method
  that changes a state \<open>'s\<close> returns \<open>Inr\<close> of the new state, or \<open>Inl\<close> of the
  exception together with the state at the \<^verbatim>\<open>raise\<close>.\<close>

type_synonym 's raising = "(error \<times> 's) + 's"

text \<open>Running a loop whose body may raise: the first exception ends it.\<close>

primrec fold_err :: "('a \<Rightarrow> 's \<Rightarrow> 'e + 's) \<Rightarrow> 'a list \<Rightarrow> 's \<Rightarrow> 'e + 's" where
  "fold_err f [] s = Inr s"
| "fold_err f (x # xs) s = (case f x s of Inl e \<Rightarrow> Inl e | Inr s' \<Rightarrow> fold_err f xs s')"

primrec map_err :: "('a \<Rightarrow> error + 'b) \<Rightarrow> 'a list \<Rightarrow> error + 'b list" where
  "map_err f [] = Inr []"
| "map_err f (x # xs) =
     (case f x of Inl e \<Rightarrow> Inl e
      | Inr y \<Rightarrow> (case map_err f xs of Inl e \<Rightarrow> Inl e | Inr ys \<Rightarrow> Inr (y # ys)))"

text \<open>One \<^verbatim>\<open>OciorABAStarNode\<close>.  \<open>own_shares\<close> is the attribute \<^verbatim>\<open>_shares\<close>, \<open>rbc_owner\<close> the
  owner of the node's \<^verbatim>\<open>RBC\<close> object; \<open>abba_out\<close> holds what \<^verbatim>\<open>get_output()\<close>
  returned.\<close>

record Node =
  node_id :: int
  node_n :: int
  node_t :: int
  is_byzantine :: bool
  vi :: "(int \<times> int option) list"
  own_shares :: "(int \<times> int) list"
  pending_shares :: "(int \<times> (int \<times> int)) list"
  rbc_shares :: "(int \<times> (int \<times> int)) list"
  rbc_owner :: int
  abba :: "(int \<times> ABBA) list"
  abba_out :: "(int \<times> int option) list"
  final_decision :: "int option"
  protocol_complete :: bool

definition Node_init :: "int \<Rightarrow> int \<Rightarrow> int \<Rightarrow> bool \<Rightarrow> Node" where
  "Node_init i n t byz =
     \<lparr>node_id = i, node_n = n, node_t = t, is_byzantine = byz,
      vi = map (\<lambda>j. (j, None)) [1..n], own_shares = [], pending_shares = [],
      rbc_shares = [], rbc_owner = i,
      abba = map (\<lambda>j. (j, ABBA_init j n t)) [1..n], abba_out = [],
      final_decision = None, protocol_complete = False\<rparr>"

text \<open>\<^verbatim>\<open>_finalize\<close>.  \<open>Aones\<close> is a Python set, so it is kept without duplicates
  and sorted before the slice that gives \<open>Bones\<close>.  The shares handed to
  \<^verbatim>\<open>ECDec\<close> are read from \<^verbatim>\<open>self._shares\<close>; \<^verbatim>\<open>self.rbc_shares\<close> is only asked
  whether it has the key.\<close>

definition Aones :: "Node \<Rightarrow> int list" where
  "Aones s = remdups (map fst (filter (\<lambda>jv. snd jv = Some 1) (abba_out s)))"

definition Bones :: "Node \<Rightarrow> int list" where
  "Bones s = py_slice_to (sort (Aones s)) (node_t s + 1)"

definition finalize :: "Node \<Rightarrow> Node raising" where
  "finalize s =
     (if int (length (Aones s)) < node_t s + 1
      then Inr (s\<lparr>final_decision := None, protocol_complete := True\<rparr>)
      else let missing = filter (\<lambda>j. j \<notin> fst ` set (rbc_shares s)) (Bones s)
           in if missing \<noteq> [] then Inr (s\<lparr>protocol_complete := True\<rparr>)
              else (case map_err (\<lambda>j. py_index (own_shares s) (j - 1)) (Bones s) of
                      Inl e \<Rightarrow> Inl (e, s)
                    | Inr shs \<Rightarrow>
                        (case ECDec (node_n s) (node_t s + 1) shs of
                           Inl e \<Rightarrow> Inl (e, s)
                         | Inr recovered \<Rightarrow>
                             Inr (s\<lparr>final_decision := Some recovered,
                                     protocol_complete := True\<rparr>))))"

definition inject_default_votes :: "Node \<Rightarrow> Node raising" where
  "inject_default_votes s =
     (if length (abba_out s) > 0
      then fold_err
             (\<lambda>j s. if j \<notin> fst ` set (abba_out s)
                    then (case py_lookup (abba s) j of
                            Inl e \<Rightarrow> Inl (e, s)
                          | Inr ab \<Rightarrow>
                              Inr (s\<lparr>abba := AList.update j (ABBA_input ab (node_id s) 0)
                                               (abba s)\<rparr>))
                    else Inr s)
             [1..node_n s] s
      else Inr s)"

text \<open>The first loop of \<^verbatim>\<open>_process_abba\<close>: copy the outputs that are new.\<close>

definition collect_outputs :: "Node \<Rightarrow> Node" where
  "collect_outputs s =
     fold (\<lambda>jab s. if fst jab \<notin> fst ` set (abba_out s) \<and> has_output (snd jab)
                   then s\<lparr>abba_out := AList.update (fst jab) (get_output (snd jab))
                                         (abba_out s)\<rparr>
                   else s)
       (abba s) s"

definition process_abba :: "Node \<Rightarrow> Node raising" where
  "process_abba s =
     (case inject_default_votes (collect_outputs s) of
        Inl e \<Rightarrow> Inl e
      | Inr s1 \<Rightarrow> if int (length (abba_out s1)) = node_n s1 then finalize s1 else Inr s1)"

text \<open>The global registry \<^verbatim>\<open>NODES\<close>, with the number of \<^verbatim>\<open>random.choice\<close> calls
  made so far.  A node object is mutated in place and the registry holds the
  object, so changing node \<open>i\<close> is writing it back under its key.\<close>

record World =
  NODES :: "(int \<times> Node) list"
  draws :: nat

definition World_init :: World where
  "World_init = \<lparr>NODES = [], draws = 0\<rparr>"

definition new_node :: "World \<Rightarrow> int \<Rightarrow> int \<Rightarrow> int \<Rightarrow> bool \<Rightarrow> World" where
  "new_node W i n t byz = W\<lparr>NODES := AList.update i (Node_init i n t byz) (NODES W)\<rparr>"

definition set_node :: "World \<Rightarrow> int \<Rightarrow> Node \<Rightarrow> World" where
  "set_node W i s = W\<lparr>NODES := AList.update i s (NODES W)\<rparr>"

text \<open>The votes a world holds: for every node of the registry, the votes it has
  recorded in \<^verbatim>\<open>vi\<close> and its agreement instances, with the inputs sent to them.\<close>

definition votes_cast :: "World \<Rightarrow> (int \<times> (int \<times> int option) list \<times> (int \<times> ABBA) list) list" where
  "votes_cast W = map (\<lambda>kn. (fst kn, vi (snd kn), abba (snd kn))) (NODES W)"

text \<open>The loop \<^verbatim>\<open>for node in NODES.values(): node.abba[sender].input(self.id, vote)\<close>:
  the nodes are visited in the order of the registry, and each has its
  instance for \<open>sender\<close> changed in place.\<close>

definition vote_all :: "World \<Rightarrow> int \<Rightarrow> int \<Rightarrow> int \<Rightarrow> World raising" where
  "vote_all W sender voter vote =
     fold_err
       (\<lambda>k W. case py_lookup (NODES W) k of
                Inl e \<Rightarrow> Inl (e, W)
              | Inr node \<Rightarrow>
                  (case py_lookup (abba node) sender of
                     Inl e \<Rightarrow> Inl (e, W)
                   | Inr ab \<Rightarrow>
                       Inr (set_node W k
                              (node\<lparr>abba := AList.update sender (ABBA_input ab voter vote)
                                               (abba node)\<rparr>))))
       (map fst (NODES W)) W"

text \<open>\<^verbatim>\<open>_process_share\<close> of node \<open>i\<close>.  A Byzantine node votes by
  \<^verbatim>\<open>random.choice([0, 1])\<close>: \<open>flip k\<close> stands for the result of the \<open>k\<close>-th such
  call of the run, and nothing is assumed about it.\<close>

definition process_share :: "(nat \<Rightarrow> bool) \<Rightarrow> World \<Rightarrow> int \<Rightarrow> int \<Rightarrow> int \<times> int \<Rightarrow> World raising" where
  "process_share flip W i sender share =
     (case py_lookup (NODES W) i of
        Inl e \<Rightarrow> Inl (e, W)
      | Inr self \<Rightarrow>
          (case py_index (own_shares self) (sender - 1) of
             Inl e \<Rightarrow> Inl (e, W)
           | Inr own \<Rightarrow>
               if fst own \<noteq> fst share then Inl (AssertionError, W)
               else let vote = (if is_byzantine self
                                then (if flip (draws W) then 1 else 0)
                                else (if snd share = snd own then 1 else 0));
                        W1 = (if is_byzantine self then W\<lparr>draws := Suc (draws W)\<rparr> else W);
                        W2 = set_node W1 i (self\<lparr>vi := AList.update sender (Some vote) (vi self)\<rparr>)
                    in (case vote_all W2 sender (node_id self) vote of
                          Inl e \<Rightarrow> Inl e
                        | Inr W3 \<Rightarrow>
                            (case py_lookup (NODES W3) i of
                               Inl e \<Rightarrow> Inl (e, W3)
                             | Inr self3 \<Rightarrow>
                                 (case process_abba self3 of
                                    Inl es \<Rightarrow> Inl (fst es, set_node W3 i (snd es))
                                  | Inr self4 \<Rightarrow> Inr (set_node W3 i self4))))))"

definition on_rbc_delivery :: "(nat \<Rightarrow> bool) \<Rightarrow> World \<Rightarrow> int \<Rightarrow> int \<Rightarrow> int \<times> int \<Rightarrow> World raising" where
  "on_rbc_delivery flip W i sender share =
     (case py_lookup (NODES W) i of
        Inl e \<Rightarrow> Inl (e, W)
      | Inr self \<Rightarrow>
          (let self1 = self\<lparr>rbc_shares := AList.update sender share (rbc_shares self)\<rparr>
           in if own_shares self1 = []
              then Inr (set_node W i
                     (self1\<lparr>pending_shares := pending_shares self1 @ [(sender, share)]\<rparr>))
              else process_share flip (set_node W i self1) i sender share))"

text \<open>\<^verbatim>\<open>RBC.broadcast\<close>: the share goes to every node of the registry, in order.\<close>

definition broadcast :: "(nat \<Rightarrow> bool) \<Rightarrow> World \<Rightarrow> int \<Rightarrow> int \<times> int \<Rightarrow> World raising" where
  "broadcast flip W ow share =
     fold_err (\<lambda>i W. on_rbc_delivery flip W i ow share) (map fst (NODES W)) W"

definition propose :: "(int \<Rightarrow> nat \<Rightarrow> int) \<Rightarrow> (nat \<Rightarrow> bool) \<Rightarrow> World \<Rightarrow> int \<Rightarrow> int \<Rightarrow> World raising" where
  "propose rnd flip W i secret =
     (case py_lookup (NODES W) i of
        Inl e \<Rightarrow> Inl (e, W)
      | Inr self \<Rightarrow>
          (case ECEnc rnd (node_n self) (node_t self + 1)
                  (if is_byzantine self then (secret + node_id self * 1000) mod PRIME
                   else secret) of
             Inl e \<Rightarrow> Inl (e, W)
           | Inr enc \<Rightarrow>
               (let W0 = set_node W i (self\<lparr>own_shares := enc\<rparr>)
                in case py_index enc (node_id self - 1) of
                     Inl e \<Rightarrow> Inl (e, W0)
                   | Inr own \<Rightarrow>
                       (case broadcast flip W0 (rbc_owner self) own of
                          Inl e \<Rightarrow> Inl e
                        | Inr W1 \<Rightarrow>
                            (case py_lookup (NODES W1) i of
                               Inl e \<Rightarrow> Inl (e, W1)
                             | Inr self1 \<Rightarrow>
                                 (case fold_err (\<lambda>p W. process_share flip W i (fst p) (snd p))
                                         (pending_shares self1) W1 of
                                    Inl e \<Rightarrow> Inl e
                                  | Inr W2 \<Rightarrow>
                                      (case py_lookup (NODES W2) i of
                                         Inl e \<Rightarrow> Inl (e, W2)
                                       | Inr self2 \<Rightarrow>
                                           Inr (set_node W2 i
                                                  (self2\<lparr>pending_shares := []\<rparr>)))))))))"

text \<open>One pass of the driver's loop: every node that is not complete runs
  \<^verbatim>\<open>_process_abba\<close>.\<close>

definition drive :: "World \<Rightarrow> World raising" where
  "drive W =
     fold_err (\<lambda>i W. case py_lookup (NODES W) i of
                       Inl e \<Rightarrow> Inl (e, W)
                     | Inr s \<Rightarrow>
                         if \<not> protocol_complete s
                         then (case process_abba s of
                                 Inl es \<Rightarrow> Inl (fst es, set_node W i (snd es))
                               | Inr s' \<Rightarrow> Inr (set_node W i s'))
                         else Inr W)
       (map fst (NODES W)) W"

text \<open>What the specification asks \<^verbatim>\<open>_finalize\<close> to decode: the shares received
  by broadcast from the proposers \<open>js\<close>.\<close>

definition received_shares :: "Node \<Rightarrow> int list \<Rightarrow> error + (int \<times> int) list" where
  "received_shares s js = map_err (py_lookup (rbc_shares s)) js"

text \<open>A run through the classes' interface: two honest nodes, \<open>n = 2\<close> and
  \<open>t = 0\<close>; node 1 proposes 5, node 2 proposes 7, and the driver's loop makes
  one pass.  With the threshold \<open>t + 1 = 1\<close> the polynomial is the constant
  secret, so no random number is drawn.\<close>

definition two_nodes :: World where
  "two_nodes = new_node (new_node World_init 1 2 0 False) 2 2 0 False"

definition run_5_7 :: "(int \<Rightarrow> nat \<Rightarrow> int) \<Rightarrow> (nat \<Rightarrow> bool) \<Rightarrow> World raising" where
  "run_5_7 rnd flip =
     (case propose rnd flip two_nodes 1 5 of
        Inl e \<Rightarrow> Inl e
      | Inr W1 \<Rightarrow>
          (case propose rnd flip W1 2 7 of
             Inl e \<Rightarrow> Inl e
           | Inr W2 \<Rightarrow> drive W2))"

text \<open>The states that run ends in, written out.\<close>

definition decided_abba :: "int \<Rightarrow> (int \<times> int) list \<Rightarrow> ABBA" where
  "decided_abba j votes =
     \<lparr>owner = j, abba_n = 2, abba_t = 0, inputs = votes, abba_output = Some 1,
      common_coin = \<lparr>coin_n = 2, coin_t = 0, coin_shares = [(1, 0)], coin_value = Some 0\<rparr>,
      coin_requested = True\<rparr>"

definition final_node :: "int \<Rightarrow> int \<Rightarrow> (int \<times> int option) list \<Rightarrow> (int \<times> int option) list \<Rightarrow> Node" where
  "final_node i secret votes outs =
     \<lparr>node_id = i, node_n = 2, node_t = 0, is_byzantine = False, vi = votes,
      own_shares = [(1, secret), (2, secret)], pending_shares = [],
      rbc_shares = [(1, (1, 5)), (2, (2, 7))], rbc_owner = i,
      abba = [(1, decided_abba 1 [(1, 1), (2, 0)]), (2, decided_abba 2 [(1, 0), (2, 1)])],
      abba_out = outs, final_decision = Some secret, protocol_complete = True\<rparr>"

section \<open>Definitions used in the proofs\<close>

text \<open>Nothing here is part of the program.  The round trip of the codec needs
  that \<open>2 ^ 127 - 1\<close> is a prime, which is proved from Lehmer's criterion with
  primality certificates checked by the kernel, and that a polynomial has no
  more roots modulo a prime than its degree allows.\<close>

subsection \<open>Primes and trial division\<close>

definition prime_nat :: "nat \<Rightarrow> bool" where
  "prime_nat p \<longleftrightarrow> 1 < p \<and> (\<forall>d. d dvd p \<longrightarrow> d = 1 \<or> d = p)"

function trial :: "int \<Rightarrow> int \<Rightarrow> bool" where
  "trial p d = (if p < d * d then True else if p mod d = 0 then False else trial p (d + 1))"
  by pat_completeness auto

termination
proof (relation "measure (\<lambda>(p, d). nat (p + 1 - d))")
  show "wf (measure (\<lambda>(p, d). nat (p + 1 - d)))" by simp
next
  fix p d :: int
  assume "\<not> p < d * d"
  then have "d * d \<le> p" by simp
  moreover have "d \<le> d * d"
  proof (cases "d \<le> 0")
    case True
    have "0 \<le> d * d" by simp
    with True show ?thesis by (rule order_trans)
  next
    case False
    then have "d * 1 \<le> d * d" by (intro mult_left_mono) simp_all
    then show ?thesis by simp
  qed
  ultimately have "d \<le> p" by simp
  then show "((p, d + 1), (p, d)) \<in> measure (\<lambda>(p, d). nat (p + 1 - d))" by simp
qed

declare trial.simps [simp del]

subsection \<open>Powers modulo \<open>2 ^ 127 - 1\<close> by folding the high bits onto the low ones\<close>

definition mfold_aux :: "int \<Rightarrow> int \<Rightarrow> int" where
  "mfold_aux x hi = x - push_bit 127 hi + hi"

definition mfold :: "int \<Rightarrow> int" where
  "mfold x = mfold_aux x (drop_bit 127 x)"

definition mred :: "int \<Rightarrow> int" where
  "mred x = mfold (mfold x)"

definition msq :: "int \<Rightarrow> int" where
  "msq h = mred (h * h)"

definition msqm :: "int \<Rightarrow> int \<Rightarrow> int" where
  "msqm h c = mred (msq h * c)"

primrec mpow_num :: "int \<Rightarrow> num \<Rightarrow> int" where
  "mpow_num b num.One = b"
| "mpow_num b (num.Bit0 n) = msq (mpow_num b n)"
| "mpow_num b (num.Bit1 n) = msqm (mpow_num b n) b"

definition mpow :: "int \<Rightarrow> int \<Rightarrow> int" where
  "mpow b e = mpow_num b (num_of_nat (nat e))"

subsection \<open>Polynomials as coefficient lists\<close>

primrec horner :: "int list \<Rightarrow> int \<Rightarrow> int" where
  "horner [] z = 0"
| "horner (c # cs) z = c + z * horner cs z"

definition polyfn :: "nat \<Rightarrow> (int \<Rightarrow> int) \<Rightarrow> bool" where
  "polyfn k f \<longleftrightarrow> (\<exists>cs. length cs \<le> k \<and> (\<forall>z. f z = horner cs z))"

fun padd :: "int list \<Rightarrow> int list \<Rightarrow> int list" where
  "padd [] ys = ys"
| "padd xs [] = xs"
| "padd (x # xs) (y # ys) = (x + y) # padd xs ys"

section \<open>Evaluating the built-in power\<close>

lemma sqr_mul_mod_eq: "sqr_mul_mod (x mod m) c m = x * x * c mod m"
  unfolding sqr_mul_mod_def by (metis mod_mult_eq mod_mult_left_eq)

lemma pow_num_eq: "pow_num b n m = b ^ numeral n mod m"
proof (induction n)
  case One
  show ?case by simp
next
  case (Bit0 n)
  have "b ^ numeral (num.Bit0 n) = b ^ (numeral n + numeral n)"
    by (simp only: numeral_Bit0)
  also have "\<dots> = b ^ numeral n * b ^ numeral n * 1"
    by (simp only: power_add mult_1_right)
  finally show ?case by (simp only: pow_num.simps Bit0 sqr_mul_mod_eq)
next
  case (Bit1 n)
  have "b ^ numeral (num.Bit1 n) = b ^ (numeral n + numeral n + 1)"
    by (simp only: numeral_Bit1)
  also have "\<dots> = b ^ numeral n * b ^ numeral n * b"
    by (simp only: power_add power_one_right)
  finally show ?case by (simp only: pow_num.simps Bit1 sqr_mul_mod_eq)
qed

lemma py_pow_code [code]:
  "py_pow b 0 m = 1 mod m"
  "py_pow b (Int.Pos n) m = pow_num b n m"
  "py_pow b (Int.Neg n) m = 1 mod m"
  by (simp_all add: py_pow_def pow_num_eq Int.Pos_def Int.Neg_def)

lemma py_pow_numeral: "py_pow b (numeral n) m = pow_num b n m"
  by (simp add: py_pow_def pow_num_eq)

section \<open>The codec: evaluation and range of the result\<close>

lemmas codec_eval =
  ECDec_def py_slice_to_def lagrange_interpolate_def num_den_def py_pow_def PRIME_def

lemma PRIME_pos: "0 < PRIME"
  by (simp add: PRIME_def)

lemma lagrange_interpolate_range:
  assumes "0 < prime" and "length x_s = length y_s" and "x_s \<noteq> []"
  shows "\<exists>v. lagrange_interpolate x x_s y_s prime = Inr v \<and> 0 \<le> v \<and> v < prime"
proof -
  obtain m where m: "length x_s = Suc m"
    using assms(3) by (cases x_s) auto
  define f where "f = (\<lambda>i total.
      let (num, den) = num_den x x_s i prime;
          inv_den = py_pow den (prime - 2) prime
      in (total + y_s ! i * num * inv_den) mod prime)"
  have last: "fold f [0..<Suc m] 0 = f m (fold f [0..<m] 0)"
    by simp
  have "\<exists>w. f m s = w mod prime" for s
    by (auto simp: f_def Let_def split: prod.splits)
  then obtain w where "fold f [0..<Suc m] 0 = w mod prime"
    unfolding last by blast
  then have "0 \<le> fold f [0..<Suc m] 0 \<and> fold f [0..<Suc m] 0 < prime"
    using assms(1) by simp
  moreover have "lagrange_interpolate x x_s y_s prime = Inr (fold f [0..<length x_s] 0)"
    using assms(2) by (simp add: lagrange_interpolate_def f_def)
  ultimately show ?thesis
    unfolding m by blast
qed

section \<open>Lehmer's criterion and trial division\<close>

lemma prime_factor_exists: "1 < m \<Longrightarrow> \<exists>q. prime_nat q \<and> q dvd m"
proof (induction m rule: less_induct)
  case (less m)
  show ?case
  proof (cases "prime_nat m")
    case True
    then show ?thesis by auto
  next
    case False
    then obtain d where d: "d dvd m" "d \<noteq> 1" "d \<noteq> m"
      using less.prems by (auto simp: prime_nat_def)
    have "0 < d" using d(1) less.prems by (auto intro: Nat.gr0I)
    then have "1 < d" using d(2) by simp
    moreover have "d \<le> m" using d(1) less.prems by (simp add: dvd_imp_le)
    then have "d < m" using d(3) by simp
    ultimately obtain q where "prime_nat q" "q dvd d"
      using less.IH by blast
    then show ?thesis using d(1) dvd_trans by blast
  qed
qed

lemma prime_nat_dvd_mult:
  assumes "prime_nat q" and "q dvd a * b"
  shows "q dvd a \<or> q dvd b"
proof (cases "q dvd a")
  case True
  then show ?thesis by simp
next
  case False
  have "gcd q a dvd q" by simp
  then have "gcd q a = 1 \<or> gcd q a = q"
    using assms(1) by (simp add: prime_nat_def)
  moreover have "gcd q a \<noteq> q"
    using False by (metis gcd_dvd2)
  ultimately have "coprime q a"
    by (simp add: coprime_iff_gcd_eq_1)
  then show ?thesis
    using assms(2) by (simp add: coprime_dvd_mult_right_iff)
qed

lemma prime_nat_dvd_power: "prime_nat q \<Longrightarrow> q dvd a ^ e \<Longrightarrow> q dvd a"
proof (induction e)
  case 0
  then show ?case by (simp add: prime_nat_def)
next
  case (Suc e)
  then show ?case using prime_nat_dvd_mult [of q a "a ^ e"] by auto
qed

lemma prime_nat_dvd_prime: "prime_nat q \<Longrightarrow> prime_nat r \<Longrightarrow> q dvd r \<Longrightarrow> q = r"
  by (auto simp: prime_nat_def)

lemma pow_one_mod:
  fixes g n :: nat
  assumes "2 \<le> n" and "g ^ d mod n = 1"
  shows "g ^ (d * k) mod n = 1"
proof -
  have "g ^ (d * k) mod n = (g ^ d mod n) ^ k mod n"
    by (simp add: power_mult power_mod)
  then show ?thesis using assms by simp
qed

theorem lehmer:
  fixes n g :: nat
  assumes n: "2 \<le> n"
    and one: "g ^ (n - 1) mod n = 1"
    and ord: "\<And>q. prime_nat q \<Longrightarrow> q dvd (n - 1) \<Longrightarrow> g ^ ((n - 1) div q) mod n \<noteq> 1"
    and b: "0 < b" "b < n"
  shows "b ^ (n - 1) mod n = 1"
proof -
  define N where "N = n - 1"
  have N: "0 < N" using n by (simp add: N_def)
  define P where "P = (\<lambda>d. 0 < d \<and> g ^ d mod n = 1)"
  define d where "d = (LEAST d. P d)"
  have PN: "P N" using one N by (simp add: P_def N_def)
  have Pd: "P d" unfolding d_def using PN by (rule LeastI)
  have least: "\<And>e. P e \<Longrightarrow> d \<le> e" unfolding d_def by (rule Least_le)
  have d_pos: "0 < d" and gd: "g ^ d mod n = 1" using Pd by (simp_all add: P_def)
  have "g ^ (d * (N div d) + N mod d) = g ^ (d * (N div d)) * g ^ (N mod d)"
    by (rule power_add)
  then have "g ^ N = g ^ (d * (N div d)) * g ^ (N mod d)"
    by simp
  then have "g ^ N mod n = (g ^ (d * (N div d)) mod n) * (g ^ (N mod d) mod n) mod n"
    by (simp add: mod_mult_eq)
  then have "g ^ (N mod d) mod n = 1"
    using pow_one_mod [OF n gd, of "N div d"] one n by (simp add: N_def)
  then have "N mod d = 0"
  proof (rule_tac ccontr)
    assume a: "g ^ (N mod d) mod n = 1" "N mod d \<noteq> 0"
    then have "P (N mod d)" by (simp add: P_def)
    then have "d \<le> N mod d" by (rule least)
    moreover have "N mod d < d" using d_pos by simp
    ultimately show False by simp
  qed
  then have d_dvd: "d dvd N" by auto
  have dN: "d = N"
  proof (rule ccontr)
    assume "d \<noteq> N"
    obtain m where m: "N = d * m" using d_dvd by auto
    have "1 < m" using m \<open>d \<noteq> N\<close> N by (cases m; cases "m - 1") auto
    then obtain q where q: "prime_nat q" "q dvd m"
      using prime_factor_exists by blast
    then obtain r where r: "m = q * r" by auto
    have q_pos: "0 < q" using q(1) by (simp add: prime_nat_def)
    have "N = q * (d * r)" using m r by simp
    then have "q dvd N" "N div q = d * r" using q_pos by simp_all
    then have "g ^ (N div q) mod n = 1"
      using pow_one_mod [OF n gd, of r] by simp
    then show False
      using ord [OF q(1)] \<open>q dvd N\<close> by (simp add: N_def)
  qed
  have inj: "inj_on (\<lambda>i. g ^ i mod n) {..<N}"
  proof (rule inj_onI)
    fix i j
    assume ij: "i \<in> {..<N}" "j \<in> {..<N}" "g ^ i mod n = g ^ j mod n"
    have aux: "i' = j'" if "i' \<le> j'" "j' < N" "g ^ i' mod n = g ^ j' mod n" for i' j'
    proof (rule ccontr)
      assume "i' \<noteq> j'"
      then have lt: "i' < j'" using that(1) by simp
      have "g ^ (j' - i') mod n = g ^ (j' - i') * (g ^ N mod n) mod n"
        using one by (simp add: N_def)
      also have "\<dots> = g ^ (j' - i') * g ^ N mod n"
        by (simp add: mod_mult_right_eq)
      also have "g ^ (j' - i') * g ^ N = g ^ j' * g ^ (N - i')"
      proof -
        have "j' - i' + N = j' + (N - i')" using lt that(2) by simp
        then show ?thesis by (metis power_add)
      qed
      also have "g ^ j' * g ^ (N - i') mod n = (g ^ j' mod n) * g ^ (N - i') mod n"
        by (simp add: mod_mult_left_eq)
      also have "\<dots> = (g ^ i' mod n) * g ^ (N - i') mod n"
        using that(3) by simp
      also have "\<dots> = g ^ i' * g ^ (N - i') mod n"
        by (simp add: mod_mult_left_eq)
      also have "g ^ i' * g ^ (N - i') = g ^ N"
      proof -
        have "i' + (N - i') = N" using lt that(2) by simp
        then show ?thesis by (metis power_add)
      qed
      finally have "g ^ (j' - i') mod n = 1" using one by (simp add: N_def)
      then have "P (j' - i')" using lt by (simp add: P_def)
      then have "d \<le> j' - i'" by (rule least)
      then show False using dN that(2) by simp
    qed
    show "i = j"
    proof (cases "i \<le> j")
      case True
      then show ?thesis using aux [of i j] ij by simp
    next
      case False
      then show ?thesis using aux [of j i] ij by simp
    qed
  qed
  have nz: "g ^ i mod n \<noteq> 0" if "i < N" for i
  proof
    assume z: "g ^ i mod n = 0"
    have "i + (N - i) = N" using that by simp
    then have "g ^ N = g ^ i * g ^ (N - i)" by (metis power_add)
    then have "g ^ N mod n = (g ^ i mod n) * g ^ (N - i) mod n"
      by (simp add: mod_mult_left_eq)
    then show False using z one by (simp add: N_def)
  qed
  have sub: "(\<lambda>i. g ^ i mod n) ` {..<N} \<subseteq> {1..<n}"
    using nz n by (auto simp: Suc_le_eq)
  have "card ((\<lambda>i. g ^ i mod n) ` {..<N}) = N"
    using inj by (simp add: card_image)
  moreover have "card {1..<n} = N" by (simp add: N_def)
  ultimately have "(\<lambda>i. g ^ i mod n) ` {..<N} = {1..<n}"
    using sub by (simp add: card_subset_eq)
  moreover have "b \<in> {1..<n}" using b by simp
  ultimately obtain i where i: "b = g ^ i mod n" by blast
  have "b ^ N mod n = g ^ (i * N) mod n"
    unfolding i by (simp add: power_mod power_mult)
  also have "\<dots> = 1"
    using pow_one_mod [OF n, of g N i] one by (simp add: N_def mult.commute)
  finally show ?thesis by (simp add: N_def)
qed

lemma trial_sound: "trial p d \<Longrightarrow> 0 \<le> d \<Longrightarrow> d \<le> e \<Longrightarrow> e * e \<le> p \<Longrightarrow> \<not> e dvd p"
proof (induction p d rule: trial.induct)
  case (1 p d)
  have nlt: "\<not> p < d * d"
  proof
    assume "p < d * d"
    moreover have "d * d \<le> e * e" using "1.prems"(2,3) by (simp add: mult_mono)
    ultimately show False using "1.prems"(4) by simp
  qed
  then have nd: "p mod d \<noteq> 0" and rest: "trial p (d + 1)"
    using "1.prems"(1) by (simp_all add: trial.simps [of p d] split: if_splits)
  show ?case
  proof (cases "e = d")
    case True
    then show ?thesis using nd by (simp add: dvd_eq_mod_eq_0)
  next
    case False
    then have "d + 1 \<le> e" "0 \<le> d + 1" using "1.prems"(2,3) by simp_all
    then show ?thesis using "1.IH" [OF nlt nd rest] "1.prems"(4) by simp
  qed
qed

lemma prime_by_trial:
  assumes "1 < q" and "trial q 2"
  shows "prime_nat (nat q)"
  unfolding prime_nat_def
proof (intro conjI allI impI)
  show "1 < nat q" using assms(1) by simp
next
  fix d
  assume "d dvd nat q"
  then obtain f where f: "nat q = d * f" by auto
  have q: "q = int d * int f" using f assms(1) by (metis int_nat_eq of_nat_mult less_imp_le order_trans zero_le_one)
  show "d = 1 \<or> d = nat q"
  proof (rule ccontr)
    assume "\<not> (d = 1 \<or> d = nat q)"
    then have "d \<noteq> 1" "f \<noteq> 1" using f by auto
    moreover have "d \<noteq> 0"
    proof
      assume "d = 0"
      then show False using f assms(1) by simp
    qed
    moreover have "f \<noteq> 0"
    proof
      assume "f = 0"
      then show False using f assms(1) by simp
    qed
    ultimately have d2: "2 \<le> int d" "2 \<le> int f" by simp_all
    show False
    proof (cases "d \<le> f")
      case True
      then have "int d * int d \<le> q" using q by (simp add: mult_left_mono)
      moreover have "int d dvd q" using q by simp
      ultimately show False using trial_sound [OF assms(2) _ d2(1)] by simp
    next
      case False
      then have "int f * int f \<le> q" using q by (simp add: mult_right_mono)
      moreover have "int f dvd q" using q by simp
      ultimately show False using trial_sound [OF assms(2) _ d2(2)] by simp
    qed
  qed
qed

lemma small_primes:
  "prime_nat 2" "prime_nat 3" "prime_nat 7" "prime_nat 19" "prime_nat 43" "prime_nat 73"
  "prime_nat 127" "prime_nat 337" "prime_nat 5419" "prime_nat 92737" "prime_nat 649657"
  "prime_nat 699053"
proof -
  have "prime_nat (nat 2)" "prime_nat (nat 3)" "prime_nat (nat 7)" "prime_nat (nat 19)"
    "prime_nat (nat 43)" "prime_nat (nat 73)" "prime_nat (nat 127)" "prime_nat (nat 337)"
    "prime_nat (nat 5419)" "prime_nat (nat 92737)" "prime_nat (nat 649657)"
    "prime_nat (nat 699053)"
    by (rule prime_by_trial, simp, code_simp)+
  then show "prime_nat 2" "prime_nat 3" "prime_nat 7" "prime_nat 19" "prime_nat 43" "prime_nat 73"
    "prime_nat 127" "prime_nat 337" "prime_nat 5419" "prime_nat 92737" "prime_nat 649657"
    "prime_nat 699053"
    by simp_all
qed

lemma lehmer_prime:
  fixes n g :: nat
  assumes n: "2 \<le> n"
    and one: "g ^ (n - 1) mod n = 1"
    and ord: "\<And>q. prime_nat q \<Longrightarrow> q dvd (n - 1) \<Longrightarrow> g ^ ((n - 1) div q) mod n \<noteq> 1"
  shows "prime_nat n"
  unfolding prime_nat_def
proof (intro conjI allI impI)
  show "1 < n" using n by simp
next
  fix d
  assume dn: "d dvd n"
  show "d = 1 \<or> d = n"
  proof (rule ccontr)
    assume c: "\<not> (d = 1 \<or> d = n)"
    have "d \<noteq> 0"
    proof
      assume "d = 0"
      then show False using dn n by simp
    qed
    moreover have "d \<le> n" using dn n by (simp add: dvd_imp_le)
    ultimately have b: "0 < d" "d < n" using c by simp_all
    have "d ^ (n - 1) mod n = 1"
      using lehmer [OF n one ord b] by simp
    then have eq: "d ^ (n - 1) = n * (d ^ (n - 1) div n) + 1"
      by (metis mult_div_mod_eq)
    have "d dvd d ^ (n - 1)" using n by (simp add: dvd_power)
    moreover have "d dvd n * (d ^ (n - 1) div n)" using dn by simp
    ultimately have "d dvd 1" using eq by (metis dvd_add_right_iff)
    then show False using c by simp
  qed
qed

lemma prime_divisor_of_product:
  assumes "prime_nat q" and "\<And>r e. (r, e) \<in> set fs \<Longrightarrow> prime_nat r"
    and "q dvd prod_list (map (\<lambda>(r, e). r ^ e) fs)"
  shows "q \<in> fst ` set fs"
  using assms(2,3)
proof (induction fs)
  case Nil
  then show ?case using assms(1) by (simp add: prime_nat_def)
next
  case (Cons f fs)
  obtain r e where f: "f = (r, e)" by (cases f)
  have "q dvd r ^ e \<or> q dvd prod_list (map (\<lambda>(r, e). r ^ e) fs)"
    using Cons.prems(2) prime_nat_dvd_mult [OF assms(1)] by (simp add: f)
  then show ?case
  proof
    assume "q dvd r ^ e"
    then have "q dvd r" using assms(1) by (rule prime_nat_dvd_power [rotated])
    moreover have "prime_nat r" using Cons.prems(1) [of r e] by (simp add: f)
    ultimately have "q = r" using assms(1) by (simp add: prime_nat_dvd_prime)
    then show ?thesis by (simp add: f)
  next
    assume rest: "q dvd prod_list (map (\<lambda>(r, e). r ^ e) fs)"
    have pf: "prime_nat r" if "(r, e) \<in> set fs" for r e
      using Cons.prems(1) [of r e] that by simp
    have "q \<in> fst ` set fs" using pf rest by (rule Cons.IH)
    then show ?thesis by simp
  qed
qed

section \<open>Powers modulo the Mersenne number\<close>

lemma mpow_code [code]: "mpow b (Int.Pos n) = mpow_num b n"
  by (simp add: mpow_def Int.Pos_def)

lemma mfold_mod: "mfold x mod PRIME = x mod PRIME"
proof -
  have "mfold x = x - PRIME * drop_bit 127 x"
    by (simp add: mfold_def mfold_aux_def PRIME_def push_bit_eq_mult algebra_simps)
  then show ?thesis by (simp add: mod_diff_right_eq [symmetric])
qed

lemma mred_mod: "mred x mod PRIME = x mod PRIME"
  by (simp add: mred_def mfold_mod)

lemma msq_mod: "msq h mod PRIME = h * h mod PRIME"
  by (simp add: msq_def mred_mod)

lemma msqm_mod: "msqm h c mod PRIME = h * h * c mod PRIME"
proof -
  have "msqm h c mod PRIME = (msq h mod PRIME) * c mod PRIME"
    by (simp add: msqm_def mred_mod mod_mult_left_eq)
  then show ?thesis by (simp add: msq_mod mod_mult_left_eq)
qed

lemma mpow_num_mod: "mpow_num b n mod PRIME = b ^ numeral n mod PRIME"
proof (induction n)
  case One
  show ?case by simp
next
  case (Bit0 n)
  have "b ^ numeral (num.Bit0 n) = b ^ (numeral n + numeral n)"
    by (simp only: numeral_Bit0)
  also have "\<dots> = b ^ numeral n * b ^ numeral n"
    by (simp only: power_add)
  finally have e: "b ^ numeral (num.Bit0 n) = b ^ numeral n * b ^ numeral n" .
  have "mpow_num b (num.Bit0 n) mod PRIME = mpow_num b n * mpow_num b n mod PRIME"
    by (simp only: mpow_num.simps msq_mod)
  also have "\<dots> = b ^ numeral n * b ^ numeral n mod PRIME"
    by (rule mod_mult_cong [OF Bit0 Bit0])
  finally show ?case by (simp only: e)
next
  case (Bit1 n)
  have "b ^ numeral (num.Bit1 n) = b ^ (numeral n + numeral n + 1)"
    by (simp only: numeral_Bit1)
  also have "\<dots> = b ^ numeral n * b ^ numeral n * b"
    by (simp only: power_add power_one_right)
  finally have e: "b ^ numeral (num.Bit1 n) = b ^ numeral n * b ^ numeral n * b" .
  have "mpow_num b (num.Bit1 n) mod PRIME = mpow_num b n * mpow_num b n * b mod PRIME"
    by (simp only: mpow_num.simps msqm_mod)
  also have "\<dots> = b ^ numeral n * b ^ numeral n * b mod PRIME"
    by (rule mod_mult_cong [OF mod_mult_cong [OF Bit1 Bit1] refl])
  finally show ?case by (simp only: e)
qed

lemma py_pow_mersenne: "py_pow b (numeral n) PRIME = mpow b (numeral n) mod PRIME"
  by (simp add: py_pow_def mpow_def mpow_num_mod)

section \<open>The certificates: \<open>77158673929\<close> and \<open>2 ^ 127 - 1\<close> are primes\<close>

lemma nat_pow_mod: "int (g ^ e mod n) = py_pow (int g) (int e) (int n)"
  by (simp add: py_pow_def zmod_int)

lemma check_one:
  assumes "py_pow (int g) (int e) (int n) = 1"
  shows "g ^ e mod n = 1"
  using assms nat_pow_mod [of g e n] by simp

lemma check_not_one:
  assumes "py_pow (int g) (int e) (int n) = r" and "r \<noteq> 1"
  shows "g ^ e mod n \<noteq> 1"
  using assms nat_pow_mod [of g e n] by auto


lemma Q_one_int: "py_pow 11 77158673928 77158673929 = 1"
  by code_simp

lemma Q_q2_int: "py_pow 11 38579336964 77158673929 = 77158673928"
  by code_simp

lemma Q_q3_int: "py_pow 11 25719557976 77158673929 = 2097151"
  by code_simp

lemma Q_q7_int: "py_pow 11 11022667704 77158673929 = 8589930496"
  by code_simp

lemma Q_q73_int: "py_pow 11 1056968136 77158673929 = 73884964140"
  by code_simp

lemma Q_q699053_int: "py_pow 11 110376 77158673929 = 43682531219"
  by code_simp

lemma Q_one: "(11::nat) ^ 77158673928 mod 77158673929 = 1"
proof -
  have i: "py_pow (int 11) (int 77158673928) (int 77158673929) = 1"
    using Q_one_int by simp
  show ?thesis by (rule check_one) (rule i)
qed

lemma Q_q2: "(11::nat) ^ 38579336964 mod 77158673929 \<noteq> 1"
proof -
  have i: "py_pow (int 11) (int 38579336964) (int 77158673929) = 77158673928"
    using Q_q2_int by simp
  show ?thesis by (rule check_not_one [OF i]) simp
qed

lemma Q_q3: "(11::nat) ^ 25719557976 mod 77158673929 \<noteq> 1"
proof -
  have i: "py_pow (int 11) (int 25719557976) (int 77158673929) = 2097151"
    using Q_q3_int by simp
  show ?thesis by (rule check_not_one [OF i]) simp
qed

lemma Q_q7: "(11::nat) ^ 11022667704 mod 77158673929 \<noteq> 1"
proof -
  have i: "py_pow (int 11) (int 11022667704) (int 77158673929) = 8589930496"
    using Q_q7_int by simp
  show ?thesis by (rule check_not_one [OF i]) simp
qed

lemma Q_q73: "(11::nat) ^ 1056968136 mod 77158673929 \<noteq> 1"
proof -
  have i: "py_pow (int 11) (int 1056968136) (int 77158673929) = 73884964140"
    using Q_q73_int by simp
  show ?thesis by (rule check_not_one [OF i]) simp
qed

lemma Q_q699053: "(11::nat) ^ 110376 mod 77158673929 \<noteq> 1"
proof -
  have i: "py_pow (int 11) (int 110376) (int 77158673929) = 43682531219"
    using Q_q699053_int by simp
  show ?thesis by (rule check_not_one [OF i]) simp
qed

lemma Q_div2: "(77158673929 - 1) div 2 = (38579336964::nat)"
  by simp

lemma Q_div3: "(77158673929 - 1) div 3 = (25719557976::nat)"
  by simp

lemma Q_div7: "(77158673929 - 1) div 7 = (11022667704::nat)"
  by simp

lemma Q_div73: "(77158673929 - 1) div 73 = (1056968136::nat)"
  by simp

lemma Q_div699053: "(77158673929 - 1) div 699053 = (110376::nat)"
  by simp

lemma Q_pred: "77158673929 - 1 = (77158673928::nat)"
  by simp

lemma Q_factors: "(77158673928::nat) = prod_list (map (\<lambda>(r, e). r ^ e) [(2::nat, 3::nat), (3, 3), (7, 1), (73, 1), (699053, 1)])"
  by simp

lemma Q_ord:
  assumes "prime_nat q" and "q dvd (77158673929 - 1)"
  shows "(11::nat) ^ ((77158673929 - 1) div q) mod 77158673929 \<noteq> 1"
proof -
  have dv: "q dvd prod_list (map (\<lambda>(r, e). r ^ e) [(2::nat, 3::nat), (3, 3), (7, 1), (73, 1), (699053, 1)])"
    using assms(2) unfolding Q_pred Q_factors .
  have pr: "prime_nat r" if "(r, e) \<in> set [(2::nat, 3::nat), (3, 3), (7, 1), (73, 1), (699053, 1)]" for r e
    using that small_primes by auto
  have "q \<in> fst ` set [(2::nat, 3::nat), (3, 3), (7, 1), (73, 1), (699053, 1)]"
    by (rule prime_divisor_of_product [OF assms(1) pr dv])
  then consider "q = 2" | "q = 3" | "q = 7" | "q = 73" | "q = 699053"
    by auto
  then show ?thesis
  proof cases
    case 1
    show ?thesis unfolding 1 Q_div2 by (rule Q_q2)
  next
    case 2
    show ?thesis unfolding 2 Q_div3 by (rule Q_q3)
  next
    case 3
    show ?thesis unfolding 3 Q_div7 by (rule Q_q7)
  next
    case 4
    show ?thesis unfolding 4 Q_div73 by (rule Q_q73)
  next
    case 5
    show ?thesis unfolding 5 Q_div699053 by (rule Q_q699053)
  qed
qed


lemma prime_Q: "prime_nat 77158673929"
proof (rule lehmer_prime [where g = 11])
  show "(2::nat) \<le> 77158673929" by simp
  show "(11::nat) ^ (77158673929 - 1) mod 77158673929 = 1"
    unfolding Q_pred by (rule Q_one)
  show "\<And>q. prime_nat q \<Longrightarrow> q dvd (77158673929 - 1) \<Longrightarrow>
      (11::nat) ^ ((77158673929 - 1) div q) mod 77158673929 \<noteq> 1"
    by (rule Q_ord)
qed


lemma P_one_int: "mpow 43 170141183460469231731687303715884105726 mod PRIME = 1"
  by code_simp

lemma P_q2_int: "mpow 43 85070591730234615865843651857942052863 mod PRIME = 170141183460469231731687303715884105726"
  by code_simp

lemma P_q3_int: "mpow 43 56713727820156410577229101238628035242 mod PRIME = 45732286665397639494243842614078445557"
  by code_simp

lemma P_q7_int: "mpow 43 24305883351495604533098186245126300818 mod PRIME = 140288290858193893367233929291106695296"
  by code_simp

lemma P_q19_int: "mpow 43 8954799129498380617457226511362321354 mod PRIME = 135637860480549721617051963495725392232"
  by code_simp

lemma P_q43_int: "mpow 43 3956771708383005389109007063160095482 mod PRIME = 88774862635528948722075669308649704181"
  by code_simp

lemma P_q73_int: "mpow 43 2330701143294099064817634297477864462 mod PRIME = 56792469864250676510438613997511014270"
  by code_simp

lemma P_q127_int: "mpow 43 1339694357956450643556592942644756738 mod PRIME = 309485009821345068724781056"
  by code_simp

lemma P_q337_int: "mpow 43 504869980594864189114799120818647198 mod PRIME = 100565539022940935462077851107895828379"
  by code_simp

lemma P_q5419_int: "mpow 43 31397155095122574595255084649544954 mod PRIME = 50495238238025519279885904268452502600"
  by code_simp

lemma P_q92737_int: "mpow 43 1834663440271620084019186556777598 mod PRIME = 10505919411115761463603776916828528380"
  by code_simp

lemma P_q649657_int: "mpow 43 261893866240907481535159790036718 mod PRIME = 165934787046051256941382364823655994977"
  by code_simp

lemma P_q77158673929_int: "mpow 43 2205081746441495815869431694 mod PRIME = 77459540161799953506571231391757981395"
  by code_simp

lemma P_one: "(43::nat) ^ 170141183460469231731687303715884105726 mod 170141183460469231731687303715884105727 = 1"
proof -
  have "py_pow 43 170141183460469231731687303715884105726 PRIME = 1"
    by (simp only: py_pow_mersenne P_one_int)
  then have i: "py_pow (int 43) (int 170141183460469231731687303715884105726) (int 170141183460469231731687303715884105727) = 1"
    by (simp add: PRIME_def)
  show ?thesis by (rule check_one) (rule i)
qed

lemma P_q2: "(43::nat) ^ 85070591730234615865843651857942052863 mod 170141183460469231731687303715884105727 \<noteq> 1"
proof -
  have "py_pow 43 85070591730234615865843651857942052863 PRIME = 170141183460469231731687303715884105726"
    by (simp only: py_pow_mersenne P_q2_int)
  then have i: "py_pow (int 43) (int 85070591730234615865843651857942052863) (int 170141183460469231731687303715884105727) = 170141183460469231731687303715884105726"
    by (simp add: PRIME_def)
  show ?thesis by (rule check_not_one [OF i]) simp
qed

lemma P_q3: "(43::nat) ^ 56713727820156410577229101238628035242 mod 170141183460469231731687303715884105727 \<noteq> 1"
proof -
  have "py_pow 43 56713727820156410577229101238628035242 PRIME = 45732286665397639494243842614078445557"
    by (simp only: py_pow_mersenne P_q3_int)
  then have i: "py_pow (int 43) (int 56713727820156410577229101238628035242) (int 170141183460469231731687303715884105727) = 45732286665397639494243842614078445557"
    by (simp add: PRIME_def)
  show ?thesis by (rule check_not_one [OF i]) simp
qed

lemma P_q7: "(43::nat) ^ 24305883351495604533098186245126300818 mod 170141183460469231731687303715884105727 \<noteq> 1"
proof -
  have "py_pow 43 24305883351495604533098186245126300818 PRIME = 140288290858193893367233929291106695296"
    by (simp only: py_pow_mersenne P_q7_int)
  then have i: "py_pow (int 43) (int 24305883351495604533098186245126300818) (int 170141183460469231731687303715884105727) = 140288290858193893367233929291106695296"
    by (simp add: PRIME_def)
  show ?thesis by (rule check_not_one [OF i]) simp
qed

lemma P_q19: "(43::nat) ^ 8954799129498380617457226511362321354 mod 170141183460469231731687303715884105727 \<noteq> 1"
proof -
  have "py_pow 43 8954799129498380617457226511362321354 PRIME = 135637860480549721617051963495725392232"
    by (simp only: py_pow_mersenne P_q19_int)
  then have i: "py_pow (int 43) (int 8954799129498380617457226511362321354) (int 170141183460469231731687303715884105727) = 135637860480549721617051963495725392232"
    by (simp add: PRIME_def)
  show ?thesis by (rule check_not_one [OF i]) simp
qed

lemma P_q43: "(43::nat) ^ 3956771708383005389109007063160095482 mod 170141183460469231731687303715884105727 \<noteq> 1"
proof -
  have "py_pow 43 3956771708383005389109007063160095482 PRIME = 88774862635528948722075669308649704181"
    by (simp only: py_pow_mersenne P_q43_int)
  then have i: "py_pow (int 43) (int 3956771708383005389109007063160095482) (int 170141183460469231731687303715884105727) = 88774862635528948722075669308649704181"
    by (simp add: PRIME_def)
  show ?thesis by (rule check_not_one [OF i]) simp
qed

lemma P_q73: "(43::nat) ^ 2330701143294099064817634297477864462 mod 170141183460469231731687303715884105727 \<noteq> 1"
proof -
  have "py_pow 43 2330701143294099064817634297477864462 PRIME = 56792469864250676510438613997511014270"
    by (simp only: py_pow_mersenne P_q73_int)
  then have i: "py_pow (int 43) (int 2330701143294099064817634297477864462) (int 170141183460469231731687303715884105727) = 56792469864250676510438613997511014270"
    by (simp add: PRIME_def)
  show ?thesis by (rule check_not_one [OF i]) simp
qed

lemma P_q127: "(43::nat) ^ 1339694357956450643556592942644756738 mod 170141183460469231731687303715884105727 \<noteq> 1"
proof -
  have "py_pow 43 1339694357956450643556592942644756738 PRIME = 309485009821345068724781056"
    by (simp only: py_pow_mersenne P_q127_int)
  then have i: "py_pow (int 43) (int 1339694357956450643556592942644756738) (int 170141183460469231731687303715884105727) = 309485009821345068724781056"
    by (simp add: PRIME_def)
  show ?thesis by (rule check_not_one [OF i]) simp
qed

lemma P_q337: "(43::nat) ^ 504869980594864189114799120818647198 mod 170141183460469231731687303715884105727 \<noteq> 1"
proof -
  have "py_pow 43 504869980594864189114799120818647198 PRIME = 100565539022940935462077851107895828379"
    by (simp only: py_pow_mersenne P_q337_int)
  then have i: "py_pow (int 43) (int 504869980594864189114799120818647198) (int 170141183460469231731687303715884105727) = 100565539022940935462077851107895828379"
    by (simp add: PRIME_def)
  show ?thesis by (rule check_not_one [OF i]) simp
qed

lemma P_q5419: "(43::nat) ^ 31397155095122574595255084649544954 mod 170141183460469231731687303715884105727 \<noteq> 1"
proof -
  have "py_pow 43 31397155095122574595255084649544954 PRIME = 50495238238025519279885904268452502600"
    by (simp only: py_pow_mersenne P_q5419_int)
  then have i: "py_pow (int 43) (int 31397155095122574595255084649544954) (int 170141183460469231731687303715884105727) = 50495238238025519279885904268452502600"
    by (simp add: PRIME_def)
  show ?thesis by (rule check_not_one [OF i]) simp
qed

lemma P_q92737: "(43::nat) ^ 1834663440271620084019186556777598 mod 170141183460469231731687303715884105727 \<noteq> 1"
proof -
  have "py_pow 43 1834663440271620084019186556777598 PRIME = 10505919411115761463603776916828528380"
    by (simp only: py_pow_mersenne P_q92737_int)
  then have i: "py_pow (int 43) (int 1834663440271620084019186556777598) (int 170141183460469231731687303715884105727) = 10505919411115761463603776916828528380"
    by (simp add: PRIME_def)
  show ?thesis by (rule check_not_one [OF i]) simp
qed

lemma P_q649657: "(43::nat) ^ 261893866240907481535159790036718 mod 170141183460469231731687303715884105727 \<noteq> 1"
proof -
  have "py_pow 43 261893866240907481535159790036718 PRIME = 165934787046051256941382364823655994977"
    by (simp only: py_pow_mersenne P_q649657_int)
  then have i: "py_pow (int 43) (int 261893866240907481535159790036718) (int 170141183460469231731687303715884105727) = 165934787046051256941382364823655994977"
    by (simp add: PRIME_def)
  show ?thesis by (rule check_not_one [OF i]) simp
qed

lemma P_q77158673929: "(43::nat) ^ 2205081746441495815869431694 mod 170141183460469231731687303715884105727 \<noteq> 1"
proof -
  have "py_pow 43 2205081746441495815869431694 PRIME = 77459540161799953506571231391757981395"
    by (simp only: py_pow_mersenne P_q77158673929_int)
  then have i: "py_pow (int 43) (int 2205081746441495815869431694) (int 170141183460469231731687303715884105727) = 77459540161799953506571231391757981395"
    by (simp add: PRIME_def)
  show ?thesis by (rule check_not_one [OF i]) simp
qed

lemma P_div2: "(170141183460469231731687303715884105727 - 1) div 2 = (85070591730234615865843651857942052863::nat)"
  by simp

lemma P_div3: "(170141183460469231731687303715884105727 - 1) div 3 = (56713727820156410577229101238628035242::nat)"
  by simp

lemma P_div7: "(170141183460469231731687303715884105727 - 1) div 7 = (24305883351495604533098186245126300818::nat)"
  by simp

lemma P_div19: "(170141183460469231731687303715884105727 - 1) div 19 = (8954799129498380617457226511362321354::nat)"
  by simp

lemma P_div43: "(170141183460469231731687303715884105727 - 1) div 43 = (3956771708383005389109007063160095482::nat)"
  by simp

lemma P_div73: "(170141183460469231731687303715884105727 - 1) div 73 = (2330701143294099064817634297477864462::nat)"
  by simp

lemma P_div127: "(170141183460469231731687303715884105727 - 1) div 127 = (1339694357956450643556592942644756738::nat)"
  by simp

lemma P_div337: "(170141183460469231731687303715884105727 - 1) div 337 = (504869980594864189114799120818647198::nat)"
  by simp

lemma P_div5419: "(170141183460469231731687303715884105727 - 1) div 5419 = (31397155095122574595255084649544954::nat)"
  by simp

lemma P_div92737: "(170141183460469231731687303715884105727 - 1) div 92737 = (1834663440271620084019186556777598::nat)"
  by simp

lemma P_div649657: "(170141183460469231731687303715884105727 - 1) div 649657 = (261893866240907481535159790036718::nat)"
  by simp

lemma P_div77158673929: "(170141183460469231731687303715884105727 - 1) div 77158673929 = (2205081746441495815869431694::nat)"
  by simp

lemma P_pred: "170141183460469231731687303715884105727 - 1 = (170141183460469231731687303715884105726::nat)"
  by simp

lemma P_factors: "(170141183460469231731687303715884105726::nat) = prod_list (map (\<lambda>(r, e). r ^ e) [(2::nat, 1::nat), (3, 3), (7, 2), (19, 1), (43, 1), (73, 1), (127, 1), (337, 1), (5419, 1), (92737, 1), (649657, 1), (77158673929, 1)])"
  by simp

lemma P_ord:
  assumes "prime_nat q" and "q dvd (170141183460469231731687303715884105727 - 1)"
  shows "(43::nat) ^ ((170141183460469231731687303715884105727 - 1) div q) mod 170141183460469231731687303715884105727 \<noteq> 1"
proof -
  have dv: "q dvd prod_list (map (\<lambda>(r, e). r ^ e) [(2::nat, 1::nat), (3, 3), (7, 2), (19, 1), (43, 1), (73, 1), (127, 1), (337, 1), (5419, 1), (92737, 1), (649657, 1), (77158673929, 1)])"
    using assms(2) unfolding P_pred P_factors .
  have pr: "prime_nat r" if "(r, e) \<in> set [(2::nat, 1::nat), (3, 3), (7, 2), (19, 1), (43, 1), (73, 1), (127, 1), (337, 1), (5419, 1), (92737, 1), (649657, 1), (77158673929, 1)]" for r e
    using that small_primes prime_Q by auto
  have "q \<in> fst ` set [(2::nat, 1::nat), (3, 3), (7, 2), (19, 1), (43, 1), (73, 1), (127, 1), (337, 1), (5419, 1), (92737, 1), (649657, 1), (77158673929, 1)]"
    by (rule prime_divisor_of_product [OF assms(1) pr dv])
  then consider "q = 2" | "q = 3" | "q = 7" | "q = 19" | "q = 43" | "q = 73" | "q = 127" | "q = 337" | "q = 5419" | "q = 92737" | "q = 649657" | "q = 77158673929"
    by auto
  then show ?thesis
  proof cases
    case 1
    show ?thesis unfolding 1 P_div2 by (rule P_q2)
  next
    case 2
    show ?thesis unfolding 2 P_div3 by (rule P_q3)
  next
    case 3
    show ?thesis unfolding 3 P_div7 by (rule P_q7)
  next
    case 4
    show ?thesis unfolding 4 P_div19 by (rule P_q19)
  next
    case 5
    show ?thesis unfolding 5 P_div43 by (rule P_q43)
  next
    case 6
    show ?thesis unfolding 6 P_div73 by (rule P_q73)
  next
    case 7
    show ?thesis unfolding 7 P_div127 by (rule P_q127)
  next
    case 8
    show ?thesis unfolding 8 P_div337 by (rule P_q337)
  next
    case 9
    show ?thesis unfolding 9 P_div5419 by (rule P_q5419)
  next
    case 10
    show ?thesis unfolding 10 P_div92737 by (rule P_q92737)
  next
    case 11
    show ?thesis unfolding 11 P_div649657 by (rule P_q649657)
  next
    case 12
    show ?thesis unfolding 12 P_div77158673929 by (rule P_q77158673929)
  qed
qed


lemma fermat_nat:
  assumes "0 < b" and "b < 170141183460469231731687303715884105727"
  shows "(b::nat) ^ (170141183460469231731687303715884105727 - 1) mod 170141183460469231731687303715884105727 = 1"
proof (rule lehmer [where g = 43])
  show "(2::nat) \<le> 170141183460469231731687303715884105727" by simp
  show "(43::nat) ^ (170141183460469231731687303715884105727 - 1) mod 170141183460469231731687303715884105727 = 1"
    unfolding P_pred by (rule P_one)
  show "\<And>q. prime_nat q \<Longrightarrow> q dvd (170141183460469231731687303715884105727 - 1) \<Longrightarrow>
      (43::nat) ^ ((170141183460469231731687303715884105727 - 1) div q) mod 170141183460469231731687303715884105727 \<noteq> 1"
    by (rule P_ord)
qed (rule assms)+

section \<open>The field of residues and the roots of a polynomial\<close>

lemma fermat_PRIME:
  assumes "a mod PRIME \<noteq> 0"
  shows "a ^ nat (PRIME - 1) mod PRIME = 1"
proof -
  define n :: nat where "n = 170141183460469231731687303715884105727"
  define N where "N = n - 1"
  define b where "b = nat (a mod PRIME)"
  have nP: "int n = PRIME" by (simp add: n_def PRIME_def)
  have NP: "nat (PRIME - 1) = N" by (simp add: N_def n_def PRIME_def)
  have Ppos: "0 < PRIME" by (simp add: PRIME_def)
  have ib: "int b = a mod PRIME" using Ppos by (simp add: b_def)
  have "0 < b" using assms Ppos ib by (metis of_nat_0 less_le zero_le neq0_conv)
  moreover have "b < n" using Ppos ib nP
    by (metis of_nat_less_iff pos_mod_bound)
  ultimately have "b ^ N mod n = 1"
    unfolding N_def n_def by (rule fermat_nat)
  then have "int (b ^ N mod n) = 1" by simp
  then have "(a mod PRIME) ^ N mod PRIME = 1"
    by (simp add: zmod_int ib nP)
  then show ?thesis by (simp add: NP power_mod)
qed

lemma inverse_PRIME:
  assumes "a mod PRIME \<noteq> 0"
  shows "a * py_pow a (PRIME - 2) PRIME mod PRIME = 1"
proof -
  have "Suc (nat (PRIME - 2)) = nat (PRIME - 1)" by (simp add: PRIME_def)
  then have "a ^ nat (PRIME - 1) = a * a ^ nat (PRIME - 2)"
    by (metis power_Suc)
  then have "a * a ^ nat (PRIME - 2) mod PRIME = 1"
    using fermat_PRIME [OF assms] by simp
  then show ?thesis by (simp add: py_pow_def mod_mult_right_eq)
qed

lemma domain_PRIME:
  assumes "a * b mod PRIME = 0"
  shows "a mod PRIME = 0 \<or> b mod PRIME = 0"
proof (cases "a mod PRIME = 0")
  case True
  then show ?thesis by simp
next
  case False
  define w where "w = py_pow a (PRIME - 2) PRIME"
  have aw: "a * w mod PRIME = 1" unfolding w_def using False by (rule inverse_PRIME)
  have "b mod PRIME = (a * w mod PRIME) * b mod PRIME"
    by (simp add: aw)
  also have "\<dots> = (a * w) * b mod PRIME"
    by (simp add: mod_mult_left_eq)
  also have "(a * w) * b = w * (a * b)" by (simp add: algebra_simps)
  also have "w * (a * b) mod PRIME = w * (a * b mod PRIME) mod PRIME"
    by (simp add: mod_mult_right_eq)
  finally show ?thesis using assms by simp
qed

lemma synthetic_division:
  "\<exists>q. length q = length cs - 1 \<and> (\<forall>z. horner cs z = horner cs a + (z - a) * horner q z)"
proof (induction cs)
  case Nil
  show ?case by (rule exI [of _ "[]"]) simp
next
  case (Cons c cs)
  then obtain q where q: "length q = length cs - 1"
    "\<And>z. horner cs z = horner cs a + (z - a) * horner q z" by blast
  show ?case
  proof (cases cs)
    case Nil
    show ?thesis by (rule exI [of _ "[]"]) (simp add: Nil)
  next
    case (Cons c' cs')
    have "horner (c # cs) z = horner (c # cs) a + (z - a) * horner (horner cs a # q) z" for z
    proof -
      have "horner (c # cs) z = c + z * (horner cs a + (z - a) * horner q z)"
        using q(2) [of z] by simp
      then show ?thesis by (simp add: algebra_simps)
    qed
    moreover have "length (horner cs a # q) = length (c # cs) - 1"
      using q(1) Cons by simp
    ultimately show ?thesis by blast
  qed
qed

lemma roots_zero:
  assumes dom: "\<And>a b. a * b mod p = 0 \<Longrightarrow> a mod p = 0 \<or> b mod p = 0"
  shows "length cs \<le> length xs \<Longrightarrow> distinct (map (\<lambda>x. x mod p) xs) \<Longrightarrow>
    (\<And>x. x \<in> set xs \<Longrightarrow> horner cs x mod p = 0) \<Longrightarrow> horner cs z mod p = 0"
proof (induction xs arbitrary: cs z)
  case Nil
  then show ?case by simp
next
  case (Cons a xs)
  obtain q where q: "length q = length cs - 1"
    "\<And>z. horner cs z = horner cs a + (z - a) * horner q z"
    using synthetic_division [of cs a] by blast
  have ra: "horner cs a mod p = 0" using Cons.prems(3) by simp
  have len: "length q \<le> length xs" using q(1) Cons.prems(1) by simp
  have dist: "distinct (map (\<lambda>x. x mod p) xs)" using Cons.prems(2) by simp
  have rq: "horner q x mod p = 0" if x: "x \<in> set xs" for x
  proof -
    have "horner cs x mod p = 0" using Cons.prems(3) x by simp
    then have "(horner cs a + (x - a) * horner q x) mod p = 0" using q(2) [of x] by simp
    then have "((horner cs a mod p) + (x - a) * horner q x) mod p = 0"
      by (simp add: mod_add_left_eq)
    then have "(x - a) * horner q x mod p = 0" using ra by simp
    then have "(x - a) mod p = 0 \<or> horner q x mod p = 0" by (rule dom)
    moreover have "x mod p \<in> (\<lambda>x. x mod p) ` set xs" using x by (rule imageI)
    then have "x mod p \<noteq> a mod p" using Cons.prems(2) by auto
    then have "(x - a) mod p \<noteq> 0"
      by (metis mod_eq_dvd_iff dvd_eq_mod_eq_0)
    ultimately show ?thesis by simp
  qed
  have qz: "horner q z mod p = 0" using len dist rq by (rule Cons.IH)
  have m1: "horner cs a mod p = 0 mod p" using ra by simp
  have m2: "(z - a) * horner q z mod p = (z - a) * 0 mod p"
    by (rule mod_mult_cong [OF refl]) (simp add: qz)
  have "(horner cs a + (z - a) * horner q z) mod p = (0 + (z - a) * 0) mod p"
    by (rule mod_add_cong [OF m1 m2])
  then show ?case using q(2) [of z] by simp
qed

lemma horner_padd: "horner (padd xs ys) z = horner xs z + horner ys z"
  by (induction xs ys rule: padd.induct) (simp_all add: algebra_simps)

lemma length_padd: "length (padd xs ys) = max (length xs) (length ys)"
  by (induction xs ys rule: padd.induct) simp_all

lemma horner_smult: "horner (map ((*) c) cs) z = c * horner cs z"
  by (induction cs) (simp_all add: algebra_simps)

lemma polyfn_horner: "length cs \<le> k \<Longrightarrow> polyfn k (horner cs)"
  unfolding polyfn_def by blast

lemma polyfn_mono: "polyfn k f \<Longrightarrow> k \<le> k' \<Longrightarrow> polyfn k' f"
  unfolding polyfn_def by (meson le_trans)

lemma polyfn_zero: "polyfn k (\<lambda>z. 0)"
  unfolding polyfn_def by (rule exI [of _ "[]"]) simp

lemma polyfn_const: "1 \<le> k \<Longrightarrow> polyfn k (\<lambda>z. c)"
  unfolding polyfn_def by (rule exI [of _ "[c]"]) simp

lemma polyfn_add:
  assumes "polyfn k f" and "polyfn k g"
  shows "polyfn k (\<lambda>z. f z + g z)"
proof -
  obtain cs ds where "length cs \<le> k" "\<And>z. f z = horner cs z"
    "length ds \<le> k" "\<And>z. g z = horner ds z"
    using assms unfolding polyfn_def by blast
  then have "length (padd cs ds) \<le> k \<and> (\<forall>z. f z + g z = horner (padd cs ds) z)"
    by (simp add: length_padd horner_padd)
  then show ?thesis unfolding polyfn_def by blast
qed

lemma polyfn_smult:
  assumes "polyfn k f"
  shows "polyfn k (\<lambda>z. c * f z)"
proof -
  obtain cs where "length cs \<le> k" "\<And>z. f z = horner cs z"
    using assms unfolding polyfn_def by blast
  then have "length (map ((*) c) cs) \<le> k \<and> (\<forall>z. c * f z = horner (map ((*) c) cs) z)"
    by (simp add: horner_smult)
  then show ?thesis unfolding polyfn_def by blast
qed

lemma polyfn_diff:
  assumes "polyfn k f" and "polyfn k g"
  shows "polyfn k (\<lambda>z. f z - g z)"
  using polyfn_add [OF assms(1) polyfn_smult [OF assms(2), of "- 1"]] by simp

lemma polyfn_linear_mult:
  assumes "polyfn k f"
  shows "polyfn (Suc k) (\<lambda>z. (z - a) * f z)"
proof -
  obtain cs where cs: "length cs \<le> k" "\<And>z. f z = horner cs z"
    using assms unfolding polyfn_def by blast
  let ?ds = "padd (0 # cs) (map ((*) (- a)) cs)"
  have "horner ?ds z = (z - a) * f z" for z
    by (simp add: horner_padd horner_smult cs(2) algebra_simps)
  moreover have "length ?ds \<le> Suc k"
    using cs(1) by (simp add: length_padd)
  ultimately show ?thesis unfolding polyfn_def by metis
qed

lemma polyfn_prod:
  "finite A \<Longrightarrow> polyfn (Suc (card A)) (\<lambda>z. \<Prod>j\<in>A. (z - x j))"
proof (induction A rule: finite_induct)
  case empty
  show ?case by (simp add: polyfn_const)
next
  case (insert a A)
  have "polyfn (Suc (Suc (card A))) (\<lambda>z. (z - x a) * (\<Prod>j\<in>A. (z - x j)))"
    by (rule polyfn_linear_mult) (rule insert.IH)
  then show ?case using insert.hyps by simp
qed

lemma polyfn_sum:
  "finite A \<Longrightarrow> (\<And>i. i \<in> A \<Longrightarrow> polyfn k (f i)) \<Longrightarrow> polyfn k (\<lambda>z. \<Sum>i\<in>A. f i z)"
proof (induction A rule: finite_induct)
  case empty
  show ?case by (simp add: polyfn_zero)
next
  case (insert a A)
  have "polyfn k (\<lambda>z. f a z + (\<Sum>i\<in>A. f i z))"
    by (rule polyfn_add) (simp_all add: insert)
  then show ?case using insert.hyps by simp
qed

lemma roots_zero_fn:
  assumes dom: "\<And>a b. a * b mod p = 0 \<Longrightarrow> a mod p = 0 \<or> b mod p = 0"
    and "polyfn (length xs) f" and "distinct (map (\<lambda>x. x mod p) xs)"
    and "\<And>x. x \<in> set xs \<Longrightarrow> f x mod p = 0"
  shows "f z mod p = 0"
proof -
  obtain cs where cs: "length cs \<le> length xs" "\<And>z. f z = horner cs z"
    using assms(2) unfolding polyfn_def by blast
  have "horner cs z mod p = 0"
    using dom cs(1) assms(3)
  proof (rule roots_zero)
    fix x assume "x \<in> set xs"
    then show "horner cs x mod p = 0" using assms(4) cs(2) by simp
  qed
  then show ?thesis by (simp add: cs(2))
qed

lemma lagrange_identity:
  fixes xs :: "int list" and w :: "nat \<Rightarrow> int"
  defines "k \<equiv> length xs"
  assumes dom: "\<And>a b. a * b mod p = 0 \<Longrightarrow> a mod p = 0 \<or> b mod p = 0"
    and len: "length cs \<le> k"
    and dist: "distinct (map (\<lambda>x. x mod p) xs)"
    and inv: "\<And>i. i < k \<Longrightarrow> (\<Prod>j\<in>{..<k} - {i}. (xs ! i - xs ! j)) * w i mod p = 1"
  shows "(\<Sum>i<k. horner cs (xs ! i) * (\<Prod>j\<in>{..<k} - {i}. (z - xs ! j)) * w i) mod p =
         horner cs z mod p"
proof -
  define L where "L i z = (\<Prod>j\<in>{..<k} - {i}. (z - xs ! j))" for i z
  define S where "S z = (\<Sum>i<k. (horner cs (xs ! i) * w i) * L i z)" for z
  define G where "G z = S z - horner cs z" for z
  have pL: "polyfn k (L i)" if "i < k" for i
  proof -
    have "card ({..<k} - {i}) = k - 1" using that by simp
    then have "Suc (card ({..<k} - {i})) = k" using that by simp
    then show ?thesis
      using polyfn_prod [of "{..<k} - {i}" "\<lambda>j. xs ! j"] unfolding L_def by simp
  qed
  have pS: "polyfn k S"
    unfolding S_def by (rule polyfn_sum) (simp_all add: polyfn_smult pL)
  have pG: "polyfn (length xs) G"
    unfolding G_def k_def [symmetric] by (rule polyfn_diff [OF pS polyfn_horner [OF len]])
  have root: "G x mod p = 0" if xin: "x \<in> set xs" for x
  proof -
    obtain m where "m < length xs" "xs ! m = x"
      using xin by (auto simp: in_set_conv_nth)
    then have m: "m < k" "x = xs ! m" by (simp_all add: k_def)
    have zero: "L i x = 0" if "i \<in> {..<k} - {m}" for i
    proof -
      have "m \<in> {..<k} - {i}" using that m(1) by auto
      moreover have "x - xs ! m = 0" using m(2) by simp
      ultimately have "\<exists>j\<in>{..<k} - {i}. x - xs ! j = 0" by blast
      then show ?thesis unfolding L_def by (intro prod_zero) simp_all
    qed
    have "m \<in> {..<k}" using m(1) by simp
    then have "S x = (horner cs (xs ! m) * w m) * L m x
        + (\<Sum>i\<in>{..<k} - {m}. (horner cs (xs ! i) * w i) * L i x)"
      unfolding S_def by (rule sum.remove [OF finite_lessThan])
    also have "(\<Sum>i\<in>{..<k} - {m}. (horner cs (xs ! i) * w i) * L i x) = 0"
      by (rule sum.neutral) (simp add: zero)
    finally have Sx: "S x = horner cs x * (L m x * w m)"
      by (simp add: m(2) algebra_simps)
    have one: "L m x * w m mod p = 1"
      using inv [OF m(1)] unfolding L_def m(2) by simp
    then have "1 mod p = 1" by (metis mod_mod_trivial)
    then have "L m x * w m mod p = 1 mod p"
      using one by simp
    then have "horner cs x * (L m x * w m) mod p = horner cs x * 1 mod p"
      by (rule mod_mult_cong [OF refl])
    then have "S x mod p = horner cs x mod p" by (simp add: Sx)
    then have "(S x - horner cs x) mod p = (horner cs x - horner cs x) mod p"
      by (rule mod_diff_cong) simp
    then show ?thesis by (simp add: G_def)
  qed
  have "G z mod p = 0"
    using dom pG dist root by (rule roots_zero_fn)
  then have "S z mod p = horner cs z mod p"
    unfolding G_def by (simp add: mod_eq_dvd_iff dvd_eq_mod_eq_0)
  moreover have "S z = (\<Sum>i<k. horner cs (xs ! i) * (\<Prod>j\<in>{..<k} - {i}. (z - xs ! j)) * w i)"
    unfolding S_def L_def by (rule sum.cong) (simp_all add: algebra_simps)
  ultimately show ?thesis by simp
qed

section \<open>The folds of the codec as sums and products\<close>

lemma eval_fold_mod:
  fixes x p r :: int
  shows "fold (\<lambda>(power, coef) result. (result + coef * py_pow x (int power) p) mod p)
     (enumerate k cs) r mod p = (r + x ^ k * horner cs x) mod p"
proof (induction cs arbitrary: k r)
  case Nil
  show ?case by simp
next
  case (Cons c cs)
  let ?F = "\<lambda>(power, coef) result. (result + coef * py_pow x (int power) p) mod p"
  define r' where "r' = (r + c * py_pow x (int k) p) mod p"
  have e1: "r mod p = r mod p" by simp
  have e2: "c * (x ^ k mod p) mod p = c * x ^ k mod p" by (rule mod_mult_right_eq)
  have "(r + c * (x ^ k mod p)) mod p = (r + c * x ^ k) mod p"
    by (rule mod_add_cong [OF e1 e2])
  then have e3: "r' mod p = (r + c * x ^ k) mod p"
    unfolding r'_def py_pow_def by simp
  have e4: "x ^ Suc k * horner cs x mod p = x ^ Suc k * horner cs x mod p" by simp
  have "fold ?F (enumerate k (c # cs)) r mod p = fold ?F (enumerate (Suc k) cs) r' mod p"
    by (simp add: r'_def)
  also have "\<dots> = (r' + x ^ Suc k * horner cs x) mod p"
    by (rule Cons.IH)
  also have "\<dots> = (r + c * x ^ k + x ^ Suc k * horner cs x) mod p"
    by (rule mod_add_cong [OF e3 e4])
  also have "r + c * x ^ k + x ^ Suc k * horner cs x = r + x ^ k * horner (c # cs) x"
    by (simp add: algebra_simps)
  finally show ?case .
qed

lemma eval_polynomial_mod: "eval_polynomial cs x p mod p = horner cs x mod p"
  unfolding eval_polynomial_def using eval_fold_mod [of x p 0 cs 0] by simp

lemma num_den_fold_mod:
  fixes f g :: "nat \<Rightarrow> int" and i :: nat and p :: int
  defines "F \<equiv> (\<lambda>j (num, den). if i \<noteq> j then ((num * f j) mod p, (den * g j) mod p)
                                 else (num, den))"
  shows "fst (fold F [0..<m] (1, 1)) mod p = (\<Prod>j\<in>{..<m} - {i}. f j) mod p \<and>
         snd (fold F [0..<m] (1, 1)) mod p = (\<Prod>j\<in>{..<m} - {i}. g j) mod p"
proof (induction m)
  case 0
  show ?case by simp
next
  case (Suc m)
  obtain a b where ab: "fold F [0..<m] (1, 1) = (a, b)" by (cases "fold F [0..<m] (1, 1)")
  have IH: "a mod p = (\<Prod>j\<in>{..<m} - {i}. f j) mod p" "b mod p = (\<Prod>j\<in>{..<m} - {i}. g j) mod p"
    using Suc ab by simp_all
  have step: "fold F [0..<Suc m] (1, 1) = F m (a, b)" by (simp add: ab)
  show ?case
  proof (cases "i = m")
    case True
    then have "{..<Suc m} - {i} = {..<m} - {i}" by auto
    then show ?thesis unfolding step using IH True by (simp add: F_def)
  next
    case False
    then have set: "{..<Suc m} - {i} = insert m ({..<m} - {i})" by auto
    have pa: "(\<Prod>j\<in>{..<Suc m} - {i}. f j) = f m * (\<Prod>j\<in>{..<m} - {i}. f j)"
      unfolding set by simp
    have pb: "(\<Prod>j\<in>{..<Suc m} - {i}. g j) = g m * (\<Prod>j\<in>{..<m} - {i}. g j)"
      unfolding set by simp
    have "a * f m mod p = f m * (\<Prod>j\<in>{..<m} - {i}. f j) mod p"
      using mod_mult_cong [OF IH(1) refl, of "f m"] by (simp add: mult.commute)
    moreover have "b * g m mod p = g m * (\<Prod>j\<in>{..<m} - {i}. g j) mod p"
      using mod_mult_cong [OF IH(2) refl, of "g m"] by (simp add: mult.commute)
    ultimately show ?thesis unfolding step pa pb using False by (simp add: F_def)
  qed
qed

lemma num_den_mod:
  "fst (num_den z xs i p) mod p = (\<Prod>j\<in>{..<length xs} - {i}. (z - xs ! j)) mod p"
  "snd (num_den z xs i p) mod p = (\<Prod>j\<in>{..<length xs} - {i}. (xs ! i - xs ! j)) mod p"
  unfolding num_den_def
  using num_den_fold_mod [of i "\<lambda>j. z - xs ! j" p "\<lambda>j. xs ! i - xs ! j" "length xs"]
  by simp_all

lemma fold_add_mod:
  fixes g :: "nat \<Rightarrow> int"
  shows "fold (\<lambda>i t. (t + g i) mod p) [0..<m] t0 mod p = (t0 + (\<Sum>i<m. g i)) mod p"
proof (induction m)
  case 0
  show ?case by simp
next
  case (Suc m)
  have e: "g m mod p = g m mod p" by simp
  have "(fold (\<lambda>i t. (t + g i) mod p) [0..<m] t0 + g m) mod p =
      (t0 + (\<Sum>i<m. g i) + g m) mod p"
    by (rule mod_add_cong [OF Suc e])
  then show ?case by (simp add: algebra_simps)
qed

lemma sum_mod_cong:
  fixes f g :: "nat \<Rightarrow> int"
  assumes "\<And>i. i \<in> A \<Longrightarrow> f i mod p = g i mod p"
  shows "sum f A mod p = sum g A mod p"
proof -
  have "sum f A mod p = (\<Sum>i\<in>A. f i mod p) mod p" by (simp add: mod_sum_eq)
  also have "(\<Sum>i\<in>A. f i mod p) = (\<Sum>i\<in>A. g i mod p)"
    by (rule sum.cong) (simp_all add: assms)
  also have "\<dots> mod p = sum g A mod p" by (simp add: mod_sum_eq)
  finally show ?thesis .
qed

lemma prod_nonzero_mod:
  "finite A \<Longrightarrow> (\<And>j. j \<in> A \<Longrightarrow> f j mod PRIME \<noteq> 0) \<Longrightarrow> prod f A mod PRIME \<noteq> 0"
proof (induction A rule: finite_induct)
  case empty
  show ?case by (simp add: PRIME_def)
next
  case (insert a A)
  have "f a mod PRIME \<noteq> 0" "prod f A mod PRIME \<noteq> 0"
    using insert by simp_all
  then have "f a * prod f A mod PRIME \<noteq> 0"
    using domain_PRIME [of "f a" "prod f A"] by auto
  then show ?case using insert.hyps by simp
qed

lemma residues_distinct:
  assumes "1 \<le> x" "x \<le> PRIME" "1 \<le> y" "y \<le> PRIME" "x mod PRIME = y mod PRIME"
  shows "x = y"
proof (rule ccontr)
  assume ne: "x \<noteq> y"
  have "PRIME dvd x - y" using assms(5) by (simp add: mod_eq_dvd_iff)
  then have "PRIME \<le> \<bar>x - y\<bar>"
    using ne by (simp add: zdvd_imp_le dvd_imp_le_int)
  then show False using assms(1-4) by linarith
qed

lemma lagrange_interpolate_recovers:
  assumes len: "length cs \<le> length S" and ne: "S \<noteq> []"
    and dist: "distinct (map (\<lambda>x. x mod PRIME) (map fst S))"
    and ys: "\<And>x y. (x, y) \<in> set S \<Longrightarrow> y mod PRIME = horner cs x mod PRIME"
  shows "lagrange_interpolate 0 (map fst S) (map snd S) PRIME = Inr (horner cs 0 mod PRIME)"
proof -
  define xs where "xs = map fst S"
  define ys where "ys = map snd S"
  define k where "k = length xs"
  define w where "w i = py_pow (snd (num_den 0 xs i PRIME)) (PRIME - 2) PRIME" for i
  define g where "g i = ys ! i * fst (num_den 0 xs i PRIME) * w i" for i
  define L where "L i z = (\<Prod>j\<in>{..<k} - {i}. (z - xs ! j))" for i z
  have kS: "k = length S" "length ys = k" by (simp_all add: k_def xs_def ys_def)
  have step: "(\<lambda>i total. let (num, den) = num_den 0 xs i PRIME;
                           inv_den = py_pow den (PRIME - 2) PRIME
                       in (total + ys ! i * num * inv_den) mod PRIME) =
              (\<lambda>i t. (t + g i) mod PRIME)"
    by (simp add: g_def w_def Let_def case_prod_beta fun_eq_iff)
  have run: "lagrange_interpolate 0 xs ys PRIME = Inr (fold (\<lambda>i t. (t + g i) mod PRIME) [0..<k] 0)"
    unfolding lagrange_interpolate_def step using kS by (simp add: k_def)
  obtain v where v: "lagrange_interpolate 0 xs ys PRIME = Inr v" "0 \<le> v" "v < PRIME"
    using lagrange_interpolate_range [OF PRIME_pos, of xs ys 0] ne kS
    by (auto simp: k_def xs_def)
  have "v mod PRIME = (0 + (\<Sum>i<k. g i)) mod PRIME"
    using run v(1) fold_add_mod [of g PRIME k 0] by simp
  then have v_sum: "v = (\<Sum>i<k. g i) mod PRIME"
    using v(2,3) by simp
  have diff: "(xs ! i - xs ! j) mod PRIME \<noteq> 0" if "i < k" "j < k" "i \<noteq> j" for i j
  proof -
    have d: "distinct (map (\<lambda>x. x mod PRIME) xs)"
      unfolding xs_def by (rule dist)
    have "i < length (map (\<lambda>x. x mod PRIME) xs)" "j < length (map (\<lambda>x. x mod PRIME) xs)"
      using that by (simp_all add: k_def)
    then have "map (\<lambda>x. x mod PRIME) xs ! i \<noteq> map (\<lambda>x. x mod PRIME) xs ! j"
      using nth_eq_iff_index_eq [OF d] that(3) by blast
    then have "xs ! i mod PRIME \<noteq> xs ! j mod PRIME"
      using that by (simp add: k_def)
    then show ?thesis by (metis mod_eq_dvd_iff dvd_eq_mod_eq_0)
  qed
  have inv: "L i (xs ! i) * w i mod PRIME = 1" if i: "i < k" for i
  proof -
    define den where "den = snd (num_den 0 xs i PRIME)"
    have dm: "den mod PRIME = L i (xs ! i) mod PRIME"
      unfolding den_def L_def k_def by (rule num_den_mod(2))
    have "L i (xs ! i) mod PRIME \<noteq> 0"
      unfolding L_def
    proof (rule prod_nonzero_mod)
      show "finite ({..<k} - {i})" by simp
    next
      fix j assume "j \<in> {..<k} - {i}"
      then have "j < k" "i \<noteq> j" by auto
      then show "(xs ! i - xs ! j) mod PRIME \<noteq> 0" by (intro diff i)
    qed
    then have "den mod PRIME \<noteq> 0" using dm by simp
    then have "den * w i mod PRIME = 1"
      unfolding w_def den_def by (rule inverse_PRIME)
    moreover have "w i mod PRIME = w i mod PRIME" by simp
    then have "L i (xs ! i) * w i mod PRIME = den * w i mod PRIME"
      by (rule mod_mult_cong [OF dm [symmetric]])
    ultimately show ?thesis by simp
  qed
  have summand: "g i mod PRIME = horner cs (xs ! i) * L i 0 * w i mod PRIME" if i: "i < k" for i
  proof -
    have "(xs ! i, ys ! i) \<in> set S"
      using i kS by (metis xs_def ys_def nth_map nth_mem prod.collapse)
    then have a: "ys ! i mod PRIME = horner cs (xs ! i) mod PRIME" by (rule assms(4))
    have b: "fst (num_den 0 xs i PRIME) mod PRIME = L i 0 mod PRIME"
      unfolding L_def k_def by (rule num_den_mod(1))
    have c: "w i mod PRIME = w i mod PRIME" by simp
    show ?thesis
      unfolding g_def by (rule mod_mult_cong [OF mod_mult_cong [OF a b] c])
  qed
  have "(\<Sum>i<k. g i) mod PRIME = (\<Sum>i<k. horner cs (xs ! i) * L i 0 * w i) mod PRIME"
    by (rule sum_mod_cong) (simp add: summand)
  also have "\<dots> = horner cs 0 mod PRIME"
    unfolding L_def k_def
  proof (rule lagrange_identity)
    show "\<And>a b. a * b mod PRIME = 0 \<Longrightarrow> a mod PRIME = 0 \<or> b mod PRIME = 0"
      by (rule domain_PRIME)
    show "length cs \<le> length xs" using len by (simp add: xs_def)
    show "distinct (map (\<lambda>x. x mod PRIME) xs)" unfolding xs_def by (rule dist)
    show "\<And>i. i < length xs \<Longrightarrow>
        (\<Prod>j\<in>{..<length xs} - {i}. (xs ! i - xs ! j)) * w i mod PRIME = 1"
      using inv unfolding L_def k_def by simp
  qed
  finally show ?thesis
    using v(1) v_sum unfolding xs_def ys_def by simp
qed

lemma ECEnc_shares:
  assumes "ECEnc rnd n k secret = Inr shs"
  shows "shs = map (\<lambda>i. (i, eval_polynomial (secret # map (rnd secret) [0..<nat (k - 1)]) i PRIME))
                 [1..n]"
  using assms by (simp add: ECEnc_def Let_def split: if_splits)

lemma upto_1_3: "[1..3] = [1, 2, 3]"
  by (simp add: upto.simps)

section \<open>The agreement instance: frame lemmas\<close>

lemma update_fresh: "k \<notin> fst ` set xs \<Longrightarrow> AList.update k v xs = xs @ [(k, v)]"
  by (induction xs) auto

lemma try_decide_frame:
  "inputs (try_decide a) = inputs a"
  "abba_n (try_decide a) = abba_n a"
  "abba_t (try_decide a) = abba_t a"
  "owner (try_decide a) = owner a"
  "common_coin (try_decide a) = common_coin a"
  "coin_requested (try_decide a) = coin_requested a"
  by (simp_all add: try_decide_def Let_def)

lemma ones_try_decide: "ones (try_decide a) = ones a"
  and zeros_try_decide: "zeros (try_decide a) = zeros a"
  and total_try_decide: "total_votes (try_decide a) = total_votes a"
  by (simp_all add: ones_def zeros_def total_votes_def try_decide_frame)

lemma try_decide_output:
  "abba_output (try_decide a) =
     (case abba_output a of Some b \<Rightarrow> Some b
      | None \<Rightarrow> decision_rule (abba_n a) (abba_t a) (ones a) (zeros a) (total_votes a)
                  (coin_value (common_coin a)))"
  by (cases "abba_output a")
    (auto simp: try_decide_def decision_rule_def Let_def has_coin_value_def get_coin_value_def)

lemma ABBA_input_known: "sender \<in> fst ` set (inputs a) \<Longrightarrow> ABBA_input a sender v = a"
  by (simp add: ABBA_input_def)

lemma ABBA_input_inputs:
  "sender \<notin> fst ` set (inputs a) \<Longrightarrow> inputs (ABBA_input a sender v) = inputs a @ [(sender, v)]"
  by (simp add: ABBA_input_def Let_def try_decide_frame update_fresh)

lemma ABBA_input_frame:
  "abba_n (ABBA_input a s v) = abba_n a"
  "abba_t (ABBA_input a s v) = abba_t a"
  "owner (ABBA_input a s v) = owner a"
  by (simp_all add: ABBA_input_def Let_def try_decide_frame)

lemma ABBA_input_coin:
  "common_coin (ABBA_input a s v) =
     (if s \<in> fst ` set (inputs a) \<or> coin_requested a then common_coin a
      else contribute_share (common_coin a) s 1)"
  by (simp add: ABBA_input_def Let_def try_decide_frame)

lemma ABBA_input_requested:
  "coin_requested (ABBA_input a s v) = (coin_requested a \<or> s \<notin> fst ` set (inputs a))"
  by (auto simp add: ABBA_input_def Let_def try_decide_frame)

lemma ABBA_input_output:
  assumes "sender \<notin> fst ` set (inputs a)"
  shows "abba_output (ABBA_input a sender v) =
     (case abba_output a of Some b \<Rightarrow> Some b
      | None \<Rightarrow> decision_rule (abba_n a) (abba_t a)
                  (ones (ABBA_input a sender v)) (zeros (ABBA_input a sender v))
                  (total_votes (ABBA_input a sender v))
                  (coin_value (common_coin (ABBA_input a sender v))))"
proof -
  define a1 where "a1 = a\<lparr>inputs := AList.update sender v (inputs a)\<rparr>"
  define a2 where "a2 = (if \<not> coin_requested a1
                     then a1\<lparr>common_coin := contribute_share (common_coin a1) sender 1,
                             coin_requested := True\<rparr>
                     else a1)"
  have run: "ABBA_input a sender v = try_decide a2"
    using assms by (simp add: ABBA_input_def a1_def a2_def Let_def)
  have same: "abba_output a2 = abba_output a" "abba_n a2 = abba_n a" "abba_t a2 = abba_t a"
    by (simp_all add: a1_def a2_def)
  show ?thesis
    unfolding run try_decide_output [of a2] ones_try_decide zeros_try_decide
      total_try_decide try_decide_frame same ..
qed

lemma ABBA_input_keeps_output:
  "abba_output a = Some b \<Longrightarrow> abba_output (ABBA_input a s v) = Some b"
  by (simp add: ABBA_input_def Let_def try_decide_def)

lemma ABBA_run_keeps_output:
  "abba_output a = Some b \<Longrightarrow> abba_output (ABBA_run a cs) = Some b"
  by (induction cs arbitrary: a) (simp_all add: ABBA_input_keeps_output)

lemma ABBA_input_senders:
  "fst ` set (inputs (ABBA_input a s v)) = insert s (fst ` set (inputs a))"
  by (cases "s \<in> fst ` set (inputs a)") (auto simp: ABBA_input_known ABBA_input_inputs)

lemma ABBA_run_senders:
  "fst ` set (inputs (ABBA_run a cs)) = fst ` set (inputs a) \<union> fst ` set cs"
  by (induction cs arbitrary: a) (auto simp: ABBA_input_senders)

lemma ABBA_run_snoc: "ABBA_run a (cs @ [c]) = ABBA_input (ABBA_run a cs) (fst c) (snd c)"
  by (induction cs arbitrary: a) simp_all

lemmas abba_eval =
  ABBA_input_def ABBA_init_def CommonCoin_init_def try_decide_def contribute_share_def
  try_compute_coin_def has_coin_value_def get_coin_value_def ones_def zeros_def
  total_votes_def py_slice_to_def Let_def

lemma count_mono:
  "int (length (filter P (map snd xs))) \<le> int (length (filter P (map snd (xs @ [c]))))"
  by simp

lemma ABBA_input_counts_mono:
  "ones a \<le> ones (ABBA_input a s v)" "zeros a \<le> zeros (ABBA_input a s v)"
  "total_votes a \<le> total_votes (ABBA_input a s v)"
  by (cases "s \<in> fst ` set (inputs a)";
      simp add: ABBA_input_known ABBA_input_inputs ones_def zeros_def total_votes_def)+

lemma contribute_first:
  "coin_shares c = [] \<Longrightarrow> coin_value c = None \<Longrightarrow>
   coin_value (contribute_share c s r) = None \<longleftrightarrow> 0 < coin_t c"
  by (auto simp: contribute_share_def try_compute_coin_def Let_def)

lemma contribute_frame: "coin_t (contribute_share c s r) = coin_t c"
  by (simp add: contribute_share_def try_compute_coin_def Let_def)

lemma reach_inv:
  fixes ow n t cs
  defines "a \<equiv> ABBA_run (ABBA_init ow n t) cs"
  shows "abba_n a = n \<and> abba_t a = t \<and> coin_t (common_coin a) = t \<and>
    (inputs a = [] \<longrightarrow> abba_output a = None \<and> \<not> coin_requested a \<and>
        coin_shares (common_coin a) = [] \<and> coin_value (common_coin a) = None) \<and>
    (inputs a \<noteq> [] \<longrightarrow> coin_requested a \<and>
        (coin_value (common_coin a) = None \<longleftrightarrow> 0 < t) \<and>
        (abba_output a = None \<longleftrightarrow>
           \<not> (ones a \<ge> n - t \<or> zeros a \<ge> n - t \<or> (total_votes a \<ge> n - t \<and> t \<le> 0))))"
  unfolding a_def
proof (induction cs rule: rev_induct)
  case Nil
  show ?case by (simp add: ABBA_init_def CommonCoin_init_def)
next
  case (snoc c cs)
  define a where "a = ABBA_run (ABBA_init ow n t) cs"
  define s where "s = fst c"
  define v where "v = snd c"
  have step: "ABBA_run (ABBA_init ow n t) (cs @ [c]) = ABBA_input a s v"
    by (simp add: ABBA_run_snoc a_def s_def v_def)
  note IH = snoc.IH [folded a_def]
  show ?case
  proof (cases "s \<in> fst ` set (inputs a)")
    case True
    then have same: "ABBA_input a s v = a" by (rule ABBA_input_known)
    show ?thesis unfolding step same using IH .
  next
    case False
    let ?a' = "ABBA_input a s v"
    have inp: "inputs ?a' = inputs a @ [(s, v)]" using False by (rule ABBA_input_inputs)
    have nt: "abba_n ?a' = n" "abba_t ?a' = t" using IH by (simp_all add: ABBA_input_frame)
    have req: "coin_requested ?a'" using False by (simp add: ABBA_input_requested)
    have coin: "coin_t (common_coin ?a') = t \<and> (coin_value (common_coin ?a') = None \<longleftrightarrow> 0 < t)"
    proof (cases "inputs a = []")
      case True
      then show ?thesis using IH False
        by (simp add: ABBA_input_coin contribute_frame contribute_first)
    next
      case ne: False
      then show ?thesis using IH by (simp add: ABBA_input_coin)
    qed
    have out: "abba_output ?a' = None \<longleftrightarrow>
        \<not> (ones ?a' \<ge> n - t \<or> zeros ?a' \<ge> n - t \<or> (total_votes ?a' \<ge> n - t \<and> t \<le> 0))"
    proof (cases "abba_output a")
      case None
      then show ?thesis
        using coin IH by (auto simp: ABBA_input_output [OF False] decision_rule_def)
    next
      case (Some b)
      then have ne: "inputs a \<noteq> []" using IH by auto
      have "abba_output ?a' = Some b" using Some by (rule ABBA_input_keeps_output)
      moreover have "ones a \<ge> n - t \<or> zeros a \<ge> n - t \<or> (total_votes a \<ge> n - t \<and> t \<le> 0)"
        using IH ne Some by simp
      ultimately show ?thesis
        using ABBA_input_counts_mono [of a s v] by auto
    qed
    show ?thesis unfolding step using inp nt req coin out by simp
  qed
qed

lemma ABBA_input_distinct:
  "distinct (map fst (inputs a)) \<Longrightarrow> distinct (map fst (inputs (ABBA_input a s v)))"
  by (cases "s \<in> fst ` set (inputs a)") (simp_all add: ABBA_input_known ABBA_input_inputs)

lemma ABBA_run_distinct:
  "distinct (map fst (inputs a)) \<Longrightarrow> distinct (map fst (inputs (ABBA_run a cs)))"
  by (induction cs arbitrary: a) (simp_all add: ABBA_input_distinct)

lemma total_votes_run:
  "total_votes (ABBA_run (ABBA_init ow n t) cs) = int (card (fst ` set cs))"
proof -
  let ?a = "ABBA_run (ABBA_init ow n t) cs"
  have d: "distinct (map fst (inputs ?a))"
    by (rule ABBA_run_distinct) (simp add: ABBA_init_def)
  have "set (map fst (inputs ?a)) = fst ` set cs"
    using ABBA_run_senders [of "ABBA_init ow n t" cs] by (simp add: ABBA_init_def)
  then have "card (fst ` set cs) = length (map fst (inputs ?a))"
    using distinct_card [OF d] by simp
  then show ?thesis by (simp add: total_votes_def)
qed

text \<open>The coin of an instance started fresh never has a value when \<open>t \<ge> 1\<close>,
  whatever inputs arrive.\<close>

lemma coin_never_has_value:
  assumes "0 < t"
  shows "\<not> has_coin_value (common_coin (ABBA_run (ABBA_init ow n t) cs))"
proof (cases "inputs (ABBA_run (ABBA_init ow n t) cs) = []")
  case True
  then show ?thesis
    using reach_inv [of ow n t cs] by (simp add: has_coin_value_def)
next
  case False
  then show ?thesis
    using reach_inv [of ow n t cs] assms by (simp add: has_coin_value_def)
qed

text \<open>When an instance that has all \<open>n\<close> inputs is decided.\<close>

lemma decided_after_all_inputs:
  assumes "a = ABBA_run (ABBA_init ow n t) cs" and "1 \<le> n"
    and "int (card (fst ` set cs)) = n"
  shows "has_output a \<longleftrightarrow> (ones a \<ge> n - t \<or> zeros a \<ge> n - t \<or> t = 0)"
proof -
  have tv: "total_votes a = n"
    using assms(1,3) by (simp add: total_votes_run)
  then have ne: "inputs a \<noteq> []"
    using assms(2) by (auto simp: total_votes_def)
  have "abba_output a = None \<longleftrightarrow>
      \<not> (ones a \<ge> n - t \<or> zeros a \<ge> n - t \<or> (total_votes a \<ge> n - t \<and> t \<le> 0))"
    using reach_inv [of ow n t cs] ne unfolding assms(1) by blast
  then show ?thesis
    unfolding has_output_def tv by auto
qed

section \<open>The nodes: evaluating a run\<close>

lemmas node_eval =
  World_init_def new_node_def set_node_def Node_init_def propose_def broadcast_def
  on_rbc_delivery_def process_share_def vote_all_def process_abba_def collect_outputs_def
  inject_default_votes_def finalize_def Aones_def Bones_def drive_def py_lookup_def
  py_index_def ECEnc_def eval_polynomial_def enumerate_eq_zip has_output_def get_output_def

lemma upto_1_2: "[1..2] = [1, 2]"
  by (simp add: upto.simps)

lemma run_5_7_result:
  "run_5_7 rnd flip =
     Inr \<lparr>NODES =
            [(1, final_node 1 5 [(1, Some 1), (2, Some 0)] [(1, Some 1), (2, Some 1)]),
             (2, final_node 2 7 [(1, Some 0), (2, Some 1)] [(2, Some 1), (1, Some 1)])],
          draws = 0\<rparr>"
  by (simp add: run_5_7_def two_nodes_def final_node_def decided_abba_def
      node_eval abba_eval codec_eval upto_1_2
      cong: sum.case_cong_weak option.case_cong_weak let_weak_cong)

lemma py_lookup_set_node:
  "py_lookup (NODES (set_node W i s)) i = Inr s"
  by (simp add: py_lookup_def set_node_def update_conv')

lemma update_same_view:
  "map_of xs i = Some s \<Longrightarrow> f (i, s') = f (i, s) \<Longrightarrow> map f (AList.update i s' xs) = map f xs"
  by (induction xs) (auto split: if_splits)

lemma votes_cast_set_node:
  assumes "py_lookup (NODES W) i = Inr s" and "vi s' = vi s" and "abba s' = abba s"
  shows "votes_cast (set_node W i s') = votes_cast W"
proof -
  have "map_of (NODES W) i = Some s"
    using assms(1) by (simp add: py_lookup_def split: option.splits)
  then show ?thesis
    using assms(2,3) by (simp add: votes_cast_def set_node_def update_same_view)
qed

section \<open>The agreement instance: properties of \<^verbatim>\<open>input\<close> and of the decision rule\<close>

text \<open>
  \<^bold>\<open>C7.\<close> The decision rule of the specification is what \<^verbatim>\<open>_try_decide\<close> computes.
  When an input from a new sender is accepted, the vote is appended to the
  recorded ones and the output becomes: the old output if there was one, else
  the result of \<open>decision_rule\<close> (decide 1 on \<open>n - t\<close> ones; else 0 on \<open>n - t\<close>
  zeros; else, with \<open>n - t\<close> votes and a coin value, 1 on \<open>t + 1\<close> ones, else 0 on
  \<open>t + 1\<close> zeros, else the coin) on the counts after the new vote.  An input from
  a known sender does not re-evaluate anything, and an output once decided is
  kept by every later run of inputs.
\<close>

theorem decision_rule_refined:
  "(sender \<notin> fst ` set (inputs a) \<longrightarrow>
      inputs (ABBA_input a sender v) = inputs a @ [(sender, v)] \<and>
      abba_output (ABBA_input a sender v) =
        (case abba_output a of Some b \<Rightarrow> Some b
         | None \<Rightarrow> decision_rule (abba_n a) (abba_t a)
                     (ones (ABBA_input a sender v)) (zeros (ABBA_input a sender v))
                     (total_votes (ABBA_input a sender v))
                     (coin_value (common_coin (ABBA_input a sender v))))) \<and>
   (sender \<in> fst ` set (inputs a) \<longrightarrow>
      abba_output (ABBA_input a sender v) = abba_output a) \<and>
   (abba_output a = Some b \<longrightarrow> abba_output (ABBA_run a cs) = Some b)"
  using ABBA_input_inputs [of sender a v] ABBA_input_output [of sender a v]
    ABBA_input_known [of sender a v] ABBA_run_keeps_output [of a b cs]
  by simp

theorem decision_rule_refined_witness:
  "abba_output (ABBA_input (ABBA_run (ABBA_init 1 4 1) [(1, 1), (2, 1)]) 3 1) = Some 1 \<and>
   abba_output (ABBA_input (ABBA_run (ABBA_init 1 4 1) [(1, 1), (2, 1), (3, 1)]) 3 0) = Some 1 \<and>
   abba_output (ABBA_run (ABBA_run (ABBA_init 1 4 1) [(1, 1), (2, 1), (3, 1)]) [(4, 0)]) = Some 1"
proof -
  let ?a = "ABBA_run (ABBA_init 1 4 1) [(1, 1), (2, 1)]"
  let ?b = "ABBA_run (ABBA_init 1 4 1) [(1, 1), (2, 1), (3, 1)]"
  have a: "?a = \<lparr>owner = 1, abba_n = 4, abba_t = 1, inputs = [(1, 1), (2, 1)],
      abba_output = None,
      common_coin = \<lparr>coin_n = 4, coin_t = 1, coin_shares = [(1, 0)], coin_value = None\<rparr>,
      coin_requested = True\<rparr>"
    by (simp add: abba_eval)
  have b: "?b = \<lparr>owner = 1, abba_n = 4, abba_t = 1, inputs = [(1, 1), (2, 1), (3, 1)],
      abba_output = Some 1,
      common_coin = \<lparr>coin_n = 4, coin_t = 1, coin_shares = [(1, 0)], coin_value = None\<rparr>,
      coin_requested = True\<rparr>"
    by (simp add: abba_eval)
  have h1: "3 \<notin> fst ` set (inputs ?a)" unfolding a by simp
  have h2: "3 \<in> fst ` set (inputs ?b)" unfolding b by simp
  have h3: "abba_output ?b = Some 1" unfolding b by simp
  have c1: "abba_output (ABBA_input ?a 3 1) = Some 1"
    using decision_rule_refined [of 3 ?a 1] h1 ABBA_input_inputs [OF h1, of 1]
    unfolding a by (simp add: decision_rule_def ones_def)
  have c2: "abba_output (ABBA_input ?b 3 0) = Some 1"
    using decision_rule_refined [of 3 ?b 0] h2 h3 by simp
  have c3: "abba_output (ABBA_run ?b [(4, 0)]) = Some 1"
    using decision_rule_refined [of 3 ?b 0 1 "[(4, 0)]"] h3 by blast
  show ?thesis using c1 c2 c3 by blast
qed

text \<open>
  \<^bold>\<open>C8.\<close> \<^verbatim>\<open>input\<close> is idempotent per sender: an input from a sender that is
  already recorded returns the instance unchanged (all of it: votes, output,
  coin), and after one input from a sender, whatever other inputs follow, every
  further input from that sender leaves the instance as it is.
\<close>

theorem input_idempotent:
  "(sender \<in> fst ` set (inputs a) \<longrightarrow> ABBA_input a sender v' = a) \<and>
   ABBA_input (ABBA_run (ABBA_input a sender v) cs) sender v' =
     ABBA_run (ABBA_input a sender v) cs"
proof -
  have "sender \<in> fst ` set (inputs (ABBA_run (ABBA_input a sender v) cs))"
    by (simp add: ABBA_run_senders ABBA_input_senders)
  then show ?thesis by (simp add: ABBA_input_known)
qed

theorem input_idempotent_witness:
  "2 \<in> fst ` set (inputs (ABBA_input (ABBA_init 1 4 1) 2 1)) \<and>
   ABBA_input (ABBA_input (ABBA_init 1 4 1) 2 1) 2 0 = ABBA_input (ABBA_init 1 4 1) 2 1 \<and>
   ABBA_input (ABBA_run (ABBA_input (ABBA_init 1 4 1) 2 1) [(3, 0)]) 2 0 =
     ABBA_run (ABBA_input (ABBA_init 1 4 1) 2 1) [(3, 0)]"
proof -
  have h: "2 \<in> fst ` set (inputs (ABBA_input (ABBA_init 1 4 1) 2 1))"
    by (simp add: abba_eval)
  show ?thesis
    using h
      input_idempotent [where sender = 2 and a = "ABBA_input (ABBA_init 1 4 1) 2 1" and v' = 0]
      input_idempotent [where sender = 2 and a = "ABBA_init 1 4 1" and v = 1 and v' = 0
        and cs = "[(3, 0)]"]
    by blast
qed

text \<open>
  \<^bold>\<open>C10.\<close> A first input whose vote is neither 0 nor 1 is accepted: it is
  recorded under its sender, the number of votes grows by one, and the numbers
  of ones and of zeros stay as they were.
\<close>

theorem nonbinary_vote_recorded:
  assumes "sender \<notin> fst ` set (inputs a)" and "v \<noteq> 0" and "v \<noteq> 1"
  shows "inputs (ABBA_input a sender v) = inputs a @ [(sender, v)] \<and>
         map_of (inputs (ABBA_input a sender v)) sender = Some v \<and>
         total_votes (ABBA_input a sender v) = total_votes a + 1 \<and>
         ones (ABBA_input a sender v) = ones a \<and>
         zeros (ABBA_input a sender v) = zeros a"
proof -
  have i: "inputs (ABBA_input a sender v) = inputs a @ [(sender, v)]"
    using assms(1) by (rule ABBA_input_inputs)
  have "map_of (inputs a) sender = None"
    using assms(1) by (simp add: map_of_eq_None_iff)
  then have "map_of (inputs a @ [(sender, v)]) sender = Some v"
    by (simp add: map_add_def)
  then show ?thesis
    using assms(2,3) by (simp add: i ones_def zeros_def total_votes_def)
qed

theorem nonbinary_vote_recorded_witness:
  "inputs (ABBA_input (ABBA_init 1 4 1) 3 2) = [(3, 2)] \<and>
   total_votes (ABBA_input (ABBA_init 1 4 1) 3 2) = 1 \<and>
   ones (ABBA_input (ABBA_init 1 4 1) 3 2) = 0 \<and>
   zeros (ABBA_input (ABBA_init 1 4 1) 3 2) = 0"
proof -
  have h: "3 \<notin> fst ` set (inputs (ABBA_init 1 4 1))" "(2::int) \<noteq> 0" "(2::int) \<noteq> 1"
    by (simp_all add: ABBA_init_def)
  have z: "inputs (ABBA_init 1 4 1) = []" "total_votes (ABBA_init 1 4 1) = 0"
    "ones (ABBA_init 1 4 1) = 0" "zeros (ABBA_init 1 4 1) = 0"
    by (simp_all add: ABBA_init_def total_votes_def ones_def zeros_def)
  show ?thesis
    using nonbinary_vote_recorded [OF h] by (simp add: z)
qed

text \<open>
  \<^bold>\<open>C6\<close> (the code departs from the specification).  The coin of an instance
  is made to take a share from each node and to have a value once \<open>t + 1\<close> of
  them are in, and \<^verbatim>\<open>_try_decide\<close> has a branch that breaks a tie with it.  But
  \<^verbatim>\<open>input\<close> contributes a share for the first accepted input only, so the
  coin holds one share for ever: with \<open>t \<ge> 1\<close> it never has a value
  (\<open>coin_never_has_value\<close>), the branch is never taken, and an instance whose
  votes are split stays undecided when all \<open>n\<close> inputs are in.  With \<open>n = 4\<close>,
  \<open>t = 1\<close> and the votes 1, 1, 0, 0 from the senders 1 to 4: all four votes are
  recorded, which is \<open>n\<close> and at least \<open>n - t\<close>, there are \<open>t + 1\<close> ones, the coin
  has the one share of sender 1 and no value, and no output is set.
\<close>

theorem full_inputs_undecided:
  "\<exists>a. a = ABBA_run (ABBA_init 1 4 1) [(1, 1), (2, 1), (3, 0), (4, 0)] \<and>
     inputs a = [(1, 1), (2, 1), (3, 0), (4, 0)] \<and>
     total_votes a = abba_n a \<and> total_votes a \<ge> abba_n a - abba_t a \<and>
     ones a = abba_t a + 1 \<and>
     coin_shares (common_coin a) = [(1, 0)] \<and> coin_t (common_coin a) + 1 = 2 \<and>
     \<not> has_coin_value (common_coin a) \<and>
     \<not> has_output a \<and> get_output a = None"
  by (simp add: has_output_def get_output_def abba_eval)

section \<open>The codec: what \<^verbatim>\<open>ECDec\<close> rejects and what it reads\<close>

text \<open>
  \<^bold>\<open>C4\<close> (in the form the code satisfies).  \<^verbatim>\<open>ECDec\<close> checks neither the number of shares nor
  that their \<open>x\<close> coordinates differ.  It fails, with the \<^verbatim>\<open>ValueError\<close> of
  unpacking, exactly when the slice \<^verbatim>\<open>shares[:k]\<close> is empty; on every other
  input, fewer than \<open>k\<close> shares and shares with equal \<open>x\<close> included, it returns
  a field element \<open>0 \<le> v < P\<close>.  One share with \<open>k = 2\<close> decodes to its own \<open>y\<close>,
  and two shares with the same \<open>x\<close> decode to 0 (a zero denominator has the
  "inverse" \<open>0 ^ (P - 2) = 0\<close>).
\<close>

theorem ECDec_rejects_iff_empty:
  "(ECDec n k shares = Inl ValueError \<longleftrightarrow> py_slice_to shares k = []) \<and>
   (py_slice_to shares k \<noteq> [] \<longrightarrow>
      (\<exists>v. ECDec n k shares = Inr v \<and> 0 \<le> v \<and> v < PRIME))"
proof (cases "py_slice_to shares k = []")
  case True
  then show ?thesis by (simp add: ECDec_def)
next
  case False
  then obtain v where "ECDec n k shares = Inr v \<and> 0 \<le> v \<and> v < PRIME"
    using lagrange_interpolate_range [OF PRIME_pos,
        of "map fst (py_slice_to shares k)" "map snd (py_slice_to shares k)" 0]
    by (auto simp: ECDec_def Let_def)
  then show ?thesis using False by auto
qed

theorem ECDec_rejects_iff_empty_witness:
  "py_slice_to [(1::int, 5::int)] 2 \<noteq> [] \<and>
   (\<exists>v. ECDec 4 2 [(1, 5)] = Inr v \<and> 0 \<le> v \<and> v < PRIME) \<and>
   ECDec 4 2 [(1, 5)] \<noteq> Inl ValueError"
proof -
  have h: "py_slice_to [(1::int, 5::int)] 2 \<noteq> []"
    by (simp add: py_slice_to_def)
  show ?thesis
    using h ECDec_rejects_iff_empty [of 4 2 "[(1, 5)]"] by blast
qed

theorem ECDec_no_reject_counterexample:
  "int (length [(1::int, 5::int)]) < 2 \<and> ECDec 4 2 [(1, 5)] = Inr 5 \<and>
   fst ((1::int, 5::int)) = fst ((1::int, 7::int)) \<and> ECDec 4 2 [(1, 5), (1, 7)] = Inr 0"
  by (simp add: codec_eval)

text \<open>
  \<^bold>\<open>C9.\<close> \<^verbatim>\<open>ECDec\<close> reads the first \<open>k\<close> shares of its list and nothing else.  For
  every \<open>n\<close>, every number \<open>k\<close> of shares and every list with at least \<open>k\<close>
  elements, \<^verbatim>\<open>ECDec(n, k, shares)\<close> and \<^verbatim>\<open>ECDec(n, k, shares[:k])\<close> are the same
  result (the same value, or both the \<^verbatim>\<open>ValueError\<close> of \<open>k = 0\<close>); the slice is
  the list of the first \<open>k\<close> shares; and whatever shares follow the first \<open>k\<close>,
  the result is the same.
\<close>

theorem ECDec_prefix:
  assumes "0 \<le> k" and "k \<le> int (length shares)"
  shows "ECDec n k shares = ECDec n k (py_slice_to shares k) \<and>
         py_slice_to shares k = take (nat k) shares \<and>
         ECDec n k (take (nat k) shares @ others) = ECDec n k shares"
proof -
  have len: "length (take (nat k) shares) = nat k"
    using assms by simp
  have sl: "py_slice_to xs k = take (nat k) xs" for xs :: "(int \<times> int) list"
    using assms(1) by (simp add: py_slice_to_def)
  have s1: "py_slice_to shares k = take (nat k) shares"
    by (rule sl)
  have s2: "py_slice_to (take (nat k) shares) k = take (nat k) shares"
    unfolding sl by simp
  have s3: "py_slice_to (take (nat k) shares @ others) k = take (nat k) shares"
    unfolding sl using len by simp
  show ?thesis
    unfolding ECDec_def s1 s2 s3 by simp
qed

theorem ECDec_prefix_witness:
  "(0::int) \<le> 1 \<and> 1 \<le> int (length [(1::int, 5::int), (2, 7)]) \<and>
   ECDec 4 1 [(1, 5), (2, 7)] = ECDec 4 1 (py_slice_to [(1, 5), (2, 7)] 1) \<and>
   py_slice_to [(1::int, 5::int), (2, 7)] 1 = [(1, 5)] \<and>
   ECDec 4 1 [(1, 5), (3, 9), (4, 11)] = ECDec 4 1 [(1, 5), (2, 7)]"
proof -
  have h: "(0::int) \<le> 1" "1 \<le> int (length [(1::int, 5::int), (2, 7)])"
    by simp_all
  show ?thesis
    using h ECDec_prefix [OF h, of 4 "[(3, 9), (4, 11)]"] by simp
qed

section \<open>The nodes: finalization, agreement and the coordinate check\<close>

text \<open>
  \<^bold>\<open>C1\<close> (the code departs from the specification).  The specification has \<^verbatim>\<open>_finalize\<close> decode
  the shares received by broadcast from the proposers in \<open>B\<close>.  The code checks
  that those shares have arrived and then decodes its own
  \<^verbatim>\<open>self._shares[j - 1]\<close>.  In the run \<open>run_5_7\<close>, node 2 ends with \<open>A = {1, 2}\<close>,
  \<open>B = [1]\<close>, the received share \<open>(1, 5)\<close> of proposer 1 recorded, and
  \<open>Decode\<close> of the received shares equal to 5; its final value is 7, the
  secret it proposed itself, and finalizing again changes nothing.
\<close>

theorem finalize_decodes_own_shares:
  "\<exists>W s. run_5_7 rnd flip = Inr W \<and> map_of (NODES W) 2 = Some s \<and>
     int (length (Aones s)) \<ge> node_t s + 1 \<and> Bones s = [1] \<and>
     received_shares s (Bones s) = Inr [(1, 5)] \<and>
     ECDec (node_n s) (node_t s + 1) [(1, 5)] = Inr 5 \<and>
     finalize s = Inr s \<and> final_decision s = Some 7 \<and> protocol_complete s"
  unfolding run_5_7_result
  by (simp add: final_node_def decided_abba_def finalize_def Aones_def Bones_def
      received_shares_def py_lookup_def py_index_def codec_eval)

text \<open>
  \<^bold>\<open>C3\<close> (the code departs from the specification).  Agreement fails in the run
  \<open>run_5_7\<close>: both nodes are honest, both are complete, and their final values
  are 5 and 7.  Each node decoded its own shares, so each returned the secret
  it had proposed.
\<close>

theorem agreement_fails_on_different_proposals:
  "\<exists>W s1 s2. run_5_7 rnd flip = Inr W \<and>
     map_of (NODES W) 1 = Some s1 \<and> map_of (NODES W) 2 = Some s2 \<and>
     \<not> is_byzantine s1 \<and> \<not> is_byzantine s2 \<and>
     protocol_complete s1 \<and> protocol_complete s2 \<and>
     final_decision s1 = Some 5 \<and> final_decision s2 = Some 7"
  unfolding run_5_7_result by (simp add: final_node_def)

text \<open>
  \<^bold>\<open>C5\<close> (in the form the code satisfies).  A share whose \<open>x\<close> coordinate differs from the expected
  one, \<^verbatim>\<open>self._shares[sender - 1][0]\<close>, fails the assertion of
  \<^verbatim>\<open>_process_share\<close>: the call raises \<^verbatim>\<open>AssertionError\<close> and leaves every object
  as it found it, so no vote has been recorded or sent, and no random vote
  drawn, when the exception leaves.  \<^verbatim>\<open>on_rbc_delivery\<close> passes the exception
  on to its caller; all it has changed by then is the entry of the sender in
  \<^verbatim>\<open>rbc_shares\<close>, where the share was stored, and the votes of every node are
  what they were before the call.  No vote of 0 is cast.
\<close>

theorem mismatched_x_raises:
  assumes "py_lookup (NODES W) i = Inr self"
    and "py_index (own_shares self) (sender - 1) = Inr own"
    and "fst own \<noteq> fst share"
  shows "process_share flip W i sender share = Inl (AssertionError, W) \<and>
         (\<exists>W'. on_rbc_delivery flip W i sender share = Inl (AssertionError, W') \<and>
            W' = set_node W i
                   (self\<lparr>rbc_shares := AList.update sender share (rbc_shares self)\<rparr>) \<and>
            votes_cast W' = votes_cast W \<and> draws W' = draws W)"
proof -
  have ps: "process_share flip W i sender share = Inl (AssertionError, W)"
    using assms by (simp add: process_share_def)
  define self1 where
    "self1 = self\<lparr>rbc_shares := AList.update sender share (rbc_shares self)\<rparr>"
  define W' where "W' = set_node W i self1"
  have ne: "own_shares self1 \<noteq> []"
    using assms(2) by (auto simp: self1_def py_index_def split: if_splits)
  have "process_share flip W' i sender share = Inl (AssertionError, W')"
    using assms(2,3) by (simp add: process_share_def py_lookup_set_node self1_def W'_def)
  then have del: "on_rbc_delivery flip W i sender share = Inl (AssertionError, W')"
    using assms(1) ne by (simp add: on_rbc_delivery_def Let_def self1_def W'_def)
  have same: "votes_cast W' = votes_cast W"
    unfolding W'_def using assms(1) by (rule votes_cast_set_node) (simp_all add: self1_def)
  have dr: "draws W' = draws W"
    by (simp add: W'_def set_node_def)
  show ?thesis
    using ps del same dr unfolding W'_def self1_def by blast
qed

theorem mismatched_x_raises_witness:
  "process_share (\<lambda>k. False)
     (set_node two_nodes 1 ((Node_init 1 2 0 False)\<lparr>own_shares := [(1, 5), (2, 5)]\<rparr>))
     1 2 (5, 5) =
   Inl (AssertionError,
        set_node two_nodes 1 ((Node_init 1 2 0 False)\<lparr>own_shares := [(1, 5), (2, 5)]\<rparr>)) \<and>
   (\<exists>W'. on_rbc_delivery (\<lambda>k. False)
            (set_node two_nodes 1 ((Node_init 1 2 0 False)\<lparr>own_shares := [(1, 5), (2, 5)]\<rparr>))
            1 2 (5, 5) = Inl (AssertionError, W') \<and>
      votes_cast W' =
        votes_cast
          (set_node two_nodes 1 ((Node_init 1 2 0 False)\<lparr>own_shares := [(1, 5), (2, 5)]\<rparr>)))"
proof -
  let ?s = "(Node_init 1 2 0 False)\<lparr>own_shares := [(1, 5), (2, 5)]\<rparr>"
  have h1: "py_lookup (NODES (set_node two_nodes 1 ?s)) 1 = Inr ?s"
    by (rule py_lookup_set_node)
  have h2: "py_index (own_shares ?s) (2 - 1) = Inr (2, 5)"
    by (simp add: py_index_def)
  have h3: "fst (2::int, 5::int) \<noteq> fst (5::int, 5::int)"
    by simp
  show ?thesis
    using mismatched_x_raises [OF h1 h2 h3, of "\<lambda>k. False"] by blast
qed

theorem mismatched_x_counterexample:
  "\<forall>rnd flip. \<exists>W W' s1 s2. propose rnd flip two_nodes 1 5 = Inr W \<and>
     on_rbc_delivery flip W 1 2 (5, 5) = Inl (AssertionError, W') \<and>
     map_of (NODES W') 1 = Some s1 \<and> map_of (NODES W') 2 = Some s2 \<and>
     map_of (vi s1) 2 = Some None \<and>
     map_of (abba s1) 2 = Some (ABBA_init 2 2 0) \<and>
     map_of (abba s2) 2 = Some (ABBA_init 2 2 0)"
  by (simp add: two_nodes_def node_eval abba_eval codec_eval upto_1_2
      cong: sum.case_cong_weak option.case_cong_weak let_weak_cong)

section \<open>The codec: the round trip\<close>

text \<open>
  \<^bold>\<open>C2.\<close> The round trip of the codec.  For every secret with
  \<open>0 \<le> secret < P\<close>, every \<open>n\<close> and \<open>k\<close> with \<open>1 \<le> k \<le> n\<close> and every list \<open>S\<close> of
  exactly \<open>k\<close> different shares taken from \<^verbatim>\<open>ECEnc(n, k, secret)\<close>, in any order
  and whatever the random coefficients were, \<^verbatim>\<open>ECDec(n, k, S)\<close> returns the
  secret.  The coordinates \<open>1\<close> to \<open>n\<close> of the shares are elements of the field,
  which is the bound \<open>n \<le> P\<close>; it holds of every list of shares the program
  can build.  The proof rests on the primality of \<open>P = 2 ^ 127 - 1\<close>, which is
  established above by Lehmer's criterion.
\<close>

theorem codec_round_trip:
  assumes "0 \<le> secret" and "secret < PRIME" and "1 \<le> k" and "k \<le> n" and "n \<le> PRIME"
    and enc: "ECEnc rnd n k secret = Inr shs"
    and sub: "set S \<subseteq> set shs" and dS: "distinct S" and lS: "int (length S) = k"
  shows "ECDec n k S = Inr secret"
proof -
  define cs where "cs = secret # map (rnd secret) [0..<nat (k - 1)]"
  have shs: "shs = map (\<lambda>i. (i, eval_polynomial cs i PRIME)) [1..n]"
    unfolding cs_def using enc by (rule ECEnc_shares)
  have mem: "1 \<le> x \<and> x \<le> n \<and> y = eval_polynomial cs x PRIME" if "(x, y) \<in> set S" for x y
    using that sub shs by auto
  have len: "length cs \<le> length S"
    using lS assms(3) by (simp add: cs_def)
  have ne: "S \<noteq> []" using lS assms(3) by auto
  have inj1: "inj_on fst (set S)"
  proof (rule inj_onI)
    fix a b assume ab: "a \<in> set S" "b \<in> set S" "fst a = fst b"
    have "snd a = eval_polynomial cs (fst a) PRIME"
      using mem [of "fst a" "snd a"] ab(1) by simp
    moreover have "snd b = eval_polynomial cs (fst b) PRIME"
      using mem [of "fst b" "snd b"] ab(2) by simp
    ultimately show "a = b"
      using ab(3) by (simp add: prod_eq_iff)
  qed
  have inj2: "inj_on (\<lambda>x. x mod PRIME) (set (map fst S))"
  proof (rule inj_onI)
    fix x y
    assume x: "x \<in> set (map fst S)" and y: "y \<in> set (map fst S)"
      and eq: "x mod PRIME = y mod PRIME"
    obtain x' where "(x, x') \<in> set S" using x by auto
    then have bdx: "1 \<le> x" "x \<le> PRIME" using mem [of x x'] assms(5) by simp_all
    obtain y' where "(y, y') \<in> set S" using y by auto
    then have bdy: "1 \<le> y" "y \<le> PRIME" using mem [of y y'] assms(5) by simp_all
    show "x = y" using bdx bdy eq by (rule residues_distinct)
  qed
  have dist: "distinct (map (\<lambda>x. x mod PRIME) (map fst S))"
    using dS inj1 inj2 by (simp only: distinct_map)
  have ys: "y mod PRIME = horner cs x mod PRIME" if "(x, y) \<in> set S" for x y
    using mem [OF that] by (simp add: eval_polynomial_mod)
  have "lagrange_interpolate 0 (map fst S) (map snd S) PRIME = Inr (horner cs 0 mod PRIME)"
    using len ne dist ys by (rule lagrange_interpolate_recovers)
  moreover have "horner cs 0 mod PRIME = secret"
    using assms(1,2) by (simp add: cs_def)
  moreover have "py_slice_to S k = S"
    using lS by (auto simp: py_slice_to_def)
  ultimately show ?thesis
    using ne by (simp add: ECDec_def)
qed

theorem codec_round_trip_witness:
  "(0::int) \<le> 5 \<and> 5 < PRIME \<and> (1::int) \<le> 2 \<and> (2::int) \<le> 3 \<and> 3 \<le> PRIME \<and>
   ECEnc (\<lambda>s i. 7) 3 2 5 = Inr [(1, 12), (2, 19), (3, 26)] \<and>
   ECDec 3 2 [(3, 26), (1, 12)] = Inr 5"
proof -
  have h: "(0::int) \<le> 5" "5 < PRIME" "(1::int) \<le> 2" "(2::int) \<le> 3" "3 \<le> PRIME"
    by (simp_all add: PRIME_def)
  have enc: "ECEnc (\<lambda>s i. 7) 3 2 5 = Inr [(1, 12), (2, 19), (3, 26)]"
    by (simp add: ECEnc_def eval_polynomial_def enumerate_eq_zip py_pow_def upto_1_3 PRIME_def)
  have s: "set [(3::int, 26::int), (1, 12)] \<subseteq> set [(1, 12), (2, 19), (3, 26)]"
    "distinct [(3::int, 26::int), (1, 12)]" "int (length [(3::int, 26::int), (1, 12)]) = 2"
    by simp_all
  show ?thesis
    using h enc codec_round_trip [OF h enc s] by simp
qed

end
